theory Spec2Isabelle
  imports Main "HOL-Library.Word" "HOL-Library.Sublist"
begin

unbundle bit_operations_syntax

chapter \<open>The program\<close>

section \<open>util.go: identifier parsing\<close>

text \<open>
  \<^verbatim>\<open>strings.SplitN(path, "!", 2)\<close> cuts the string at the first occurrence of the
  separator: two parts when the separator occurs, the whole string as the only part
  otherwise. \<open>cut_first\<close> walks the string from the left, as the library does.
\<close>

fun cut_first :: "char \<Rightarrow> string \<Rightarrow> (string \<times> string) option" where
  "cut_first c [] = None"
| "cut_first c (x # xs) =
     (if x = c then Some ([], xs)
      else (case cut_first c xs of
              None \<Rightarrow> None
            | Some (a, b) \<Rightarrow> Some (x # a, b)))"

definition SplitN2 :: "string \<Rightarrow> char \<Rightarrow> string list" where
  "SplitN2 s c = (case cut_first c s of None \<Rightarrow> [s] | Some (a, b) \<Rightarrow> [a, b])"

text \<open>\<^verbatim>\<open>ParseArchivePath\<close>: paths of the form \<^verbatim>\<open>file.tar.gz!internal/path\<close>.\<close>

definition ParseArchivePath :: "string \<Rightarrow> string \<times> string \<times> bool" where
  "ParseArchivePath path =
     (let parts = SplitN2 path (CHR ''!'')
      in if length parts = 2 then (parts ! 0, parts ! 1, True)
         else (path, [], False))"

section \<open>options.go: the option record and its modifiers\<close>

text \<open>
  \<^verbatim>\<open>time.Duration\<close> is a signed 64-bit count of nanoseconds. A Go map is kept as the
  list of its entries (distinct keys) and a nil map or nil pointer as \<open>None\<close>. The field
  \<^verbatim>\<open>Timeout\<close> of the options is \<open>OptTimeout\<close> here, the HTTP client having one too.
\<close>

type_synonym Duration = "64 word"

definition Second :: Duration where
  "Second = 1000000000"

typedecl ProgressDisplay

record http_Transport =
  MaxIdleConns :: int
  MaxIdleConnsPerHost :: int
  IdleConnTimeout :: Duration

record http_Client =
  Timeout :: Duration
  Transport :: "http_Transport option"

type_synonym header_map = "(string \<times> string) list"

record Options =
  CacheDir :: string
  ExtractArchive :: bool
  ForceExtract :: bool
  Quiet :: bool
  Progress :: "ProgressDisplay option"
  Headers :: "header_map option"
  HTTPClient :: "http_Client option"
  OptTimeout :: Duration
  MaxRetries :: int
  RetryDelay :: Duration

text \<open>\<^verbatim>\<open>defaultOptions\<close>; the default cache directory comes from the environment.\<close>

definition defaultOptions :: "string \<Rightarrow> Options" where
  "defaultOptions cacheDir =
     \<lparr>CacheDir = cacheDir, ExtractArchive = False, ForceExtract = False, Quiet = False,
      Progress = None, Headers = Some [], HTTPClient = None,
      OptTimeout = 30 * Second, MaxRetries = 3, RetryDelay = 1 * Second\<rparr>"

text \<open>\<^verbatim>\<open>m[key] = value\<close> on a Go map: replace the entry of the key or add one.\<close>

fun map_store :: "header_map \<Rightarrow> string \<Rightarrow> string \<Rightarrow> header_map" where
  "map_store [] k v = [(k, v)]"
| "map_store ((k', v') # m) k v =
     (if k' = k then (k, v) # m else (k', v') # map_store m k v)"

text \<open>Reading a Go map, nil or not: the value of the key, if it has one.\<close>

definition map_get :: "header_map option \<Rightarrow> string \<Rightarrow> string option" where
  "map_get h k = (case h of None \<Rightarrow> None | Some m \<Rightarrow> map_of m k)"

text \<open>\<^verbatim>\<open>&http.Client{}\<close>: the zero client, no timeout and no transport of its own.\<close>

definition zero_http_Client :: http_Client where
  "zero_http_Client = \<lparr>Timeout = 0, Transport = None\<rparr>"

definition WithHeader :: "string \<Rightarrow> string \<Rightarrow> Options \<Rightarrow> Options" where
  "WithHeader key val opts =
     (let o1 = (if Headers opts = None then opts\<lparr>Headers := Some []\<rparr> else opts)
      in o1\<lparr>Headers := Some (map_store (the (Headers o1)) key val)\<rparr>)"

definition WithAuth :: "string \<Rightarrow> Options \<Rightarrow> Options" where
  "WithAuth token opts =
     (let o1 = (if Headers opts = None then opts\<lparr>Headers := Some []\<rparr> else opts)
      in o1\<lparr>Headers := Some (map_store (the (Headers o1)) ''Authorization'' (''Bearer '' @ token))\<rparr>)"

text \<open>
  \<^verbatim>\<open>WithBasicAuth\<close>: the body only makes the client and the header map non-nil; the
  two arguments are not used.
\<close>

definition WithBasicAuth :: "string \<Rightarrow> string \<Rightarrow> Options \<Rightarrow> Options" where
  "WithBasicAuth username password opts =
     (let o1 = (if HTTPClient opts = None then opts\<lparr>HTTPClient := Some zero_http_Client\<rparr> else opts);
          o2 = (if Headers o1 = None then o1\<lparr>Headers := Some []\<rparr> else o1)
      in o2)"

text \<open>\<^verbatim>\<open>getHTTPClient\<close>: the configured client, or one built from the timeout.\<close>

definition getHTTPClient :: "Options \<Rightarrow> http_Client" where
  "getHTTPClient opts =
     (case HTTPClient opts of
        Some c \<Rightarrow> c
      | None \<Rightarrow> \<lparr>Timeout = OptTimeout opts,
                  Transport = Some \<lparr>MaxIdleConns = 100, MaxIdleConnsPerHost = 10,
                                    IdleConnTimeout = 90 * Second\<rparr>\<rparr>)"

section \<open>Errors\<close>

text \<open>
  Every error the modelled functions return is a value; an error wrapped with
  \<^verbatim>\<open>%w\<close> or \<^verbatim>\<open>%v\<close> keeps the wrapped one. \<open>NilDereference\<close> is the run-time panic of
  reading a field through a nil pointer.
\<close>

datatype error =
    CreateRequestFailed
  | TransportError string
  | FailedAfterRetries int error
  | FailedToDownload error
  | DownloadStatus int
  | WriteResponseFailed
  | FailedToGetSize error
  | FailedToGetETag error
  | HeadStatus int
  | ParseContentLengthFailed
  | NilDereference
  | ErrDownloadFailed error
  | CreateTempFailed
  | MoveFailed
  | ErrLockFailed
  | LockError
  | IOError
  | OpenZipFailed
  | OpenTarGzFailed
  | GzipReaderFailed
  | ReadTarFailed
  | InvalidFilePath string
  | FileNotInArchive string

section \<open>schemes/http.go: the HTTP client with retry\<close>

text \<open>
  \<^verbatim>\<open>textproto.CanonicalMIMEHeaderKey\<close>, which \<^verbatim>\<open>Header.Set\<close> and \<^verbatim>\<open>Header.Get\<close> apply to
  their key: a key made of header-field bytes only (letters, digits and
  \<^verbatim>\<open>!#$%&'*+-.^_`|~\<close>) gets an upper-case letter at its start and after each hyphen and
  lower-case letters elsewhere; any other key is left as it is.
\<close>

definition validHeaderFieldByte :: "char \<Rightarrow> bool" where
  "validHeaderFieldByte c =
     (let n = of_char c :: nat in
      (97 \<le> n \<and> n \<le> 122) \<or> (65 \<le> n \<and> n \<le> 90) \<or> (48 \<le> n \<and> n \<le> 57) \<or>
      n \<in> set [33, 35, 36, 37, 38, 39, 42, 43, 45, 46, 94, 95, 96, 124, 126])"

fun canonical_bytes :: "bool \<Rightarrow> string \<Rightarrow> string" where
  "canonical_bytes upper [] = []"
| "canonical_bytes upper (c # cs) =
     (let n = of_char c :: nat;
          c' = (if upper \<and> 97 \<le> n \<and> n \<le> 122 then char_of (n - 32)
                else if \<not> upper \<and> 65 \<le> n \<and> n \<le> 90 then char_of (n + 32)
                else c)
      in c' # canonical_bytes (c' = CHR ''-'') cs)"

definition CanonicalMIMEHeaderKey :: "string \<Rightarrow> string" where
  "CanonicalMIMEHeaderKey s =
     (if list_all validHeaderFieldByte s then canonical_bytes True s else s)"

text \<open>
  A \<^verbatim>\<open>http.Header\<close> is keyed by canonical names: \<^verbatim>\<open>Header.Set\<close> stores under the canonical
  form of its key, and \<^verbatim>\<open>Header.Get\<close> looks the canonical form up and yields the empty
  string for a missing name. The headers of a response are stored under canonical
  names by the library that reads them (\<^verbatim>\<open>Etag\<close> for \<^verbatim>\<open>ETag\<close>).
\<close>

definition header_Set :: "header_map \<Rightarrow> string \<Rightarrow> string \<Rightarrow> header_map" where
  "header_Set h k v = map_store h (CanonicalMIMEHeaderKey k) v"

definition header_Get :: "header_map \<Rightarrow> string \<Rightarrow> string" where
  "header_Get h k =
     (case map_of h (CanonicalMIMEHeaderKey k) of None \<Rightarrow> [] | Some v \<Rightarrow> v)"

record http_Request =
  Method :: string
  URL :: string
  ReqHeader :: header_map

text \<open>
  A response as the functions read it: status, headers, the body and, when reading
  the body breaks off, the number of bytes delivered before it does.
\<close>

record http_Response =
  StatusCode :: int
  RespHeader :: header_map
  Body :: string
  BodyErrAfter :: "nat option"

text \<open>What one call of \<^verbatim>\<open>client.Do\<close> gives: an error or a response.\<close>

datatype outcome = NetErr string | Resp http_Response

text \<open>
  The transport \<open>do\<close> answers a request at its \<open>n\<close>-th attempt (counted from 0, as
  the loop of \<^verbatim>\<open>doRequestWithRetry\<close> counts).
\<close>

type_synonym transport = "http_Request \<Rightarrow> int \<Rightarrow> outcome"

record HTTPClient =
  client :: http_Client
  maxRetries :: int
  retryDelay :: Duration

definition NewHTTPClient :: HTTPClient where
  "NewHTTPClient =
     \<lparr>client = \<lparr>Timeout = 30 * Second,
                 Transport = Some \<lparr>MaxIdleConns = 100, MaxIdleConnsPerHost = 10,
                                   IdleConnTimeout = 90 * Second\<rparr>\<rparr>,
      maxRetries = 3, retryDelay = 1 * Second\<rparr>"

definition SetRetryConfig :: "int \<Rightarrow> Duration \<Rightarrow> HTTPClient \<Rightarrow> HTTPClient" where
  "SetRetryConfig n d c = c\<lparr>maxRetries := n, retryDelay := d\<rparr>"

definition SetHTTPClient :: "http_Client option \<Rightarrow> HTTPClient \<Rightarrow> HTTPClient" where
  "SetHTTPClient cl c = (case cl of None \<Rightarrow> c | Some x \<Rightarrow> c\<lparr>client := x\<rparr>)"

text \<open>
  The code after the loop of \<^verbatim>\<open>doRequestWithRetry\<close>, on the variables \<^verbatim>\<open>resp\<close> and
  \<^verbatim>\<open>err\<close> as the last attempt left them (\<open>None\<close>: both still nil).
\<close>

definition after_loop :: "HTTPClient \<Rightarrow> outcome option \<Rightarrow> error + http_Response option" where
  "after_loop c prev =
     (case prev of
        None \<Rightarrow> Inr None
      | Some (NetErr e) \<Rightarrow> Inl (FailedAfterRetries (maxRetries c) (TransportError e))
      | Some (Resp r) \<Rightarrow> Inr (Some r))"

text \<open>
  The loop of \<^verbatim>\<open>doRequestWithRetry\<close> from attempt number \<open>attempt\<close> on. It returns the
  result, the arguments of the calls of \<^verbatim>\<open>time.Sleep\<close> in order, and the number of
  calls of \<^verbatim>\<open>client.Do\<close>. The product \<^verbatim>\<open>c.retryDelay * time.Duration(attempt)\<close> is a
  product of 64-bit integers.
\<close>

function retry_loop ::
  "HTTPClient \<Rightarrow> (int \<Rightarrow> outcome) \<Rightarrow> int \<Rightarrow> outcome option \<Rightarrow> Duration list \<Rightarrow> nat
     \<Rightarrow> (error + http_Response option) \<times> Duration list \<times> nat" where
  "retry_loop c do attempt prev sleeps calls =
     (if attempt \<le> maxRetries c then
        (let sleeps' = (if attempt > 0 then sleeps @ [retryDelay c * word_of_int attempt]
                        else sleeps);
             out = do attempt
         in case out of
              Resp r \<Rightarrow>
                if StatusCode r = 200 then (Inr (Some r), sleeps', calls + 1)
                else if StatusCode r \<ge> 400 \<and> StatusCode r < 500
                  then (Inr (Some r), sleeps', calls + 1)
                else if attempt = maxRetries c
                  then (after_loop c (Some out), sleeps', calls + 1)
                else retry_loop c do (attempt + 1) (Some out) sleeps' (calls + 1)
            | NetErr e \<Rightarrow>
                if attempt = maxRetries c
                  then (after_loop c (Some out), sleeps', calls + 1)
                else retry_loop c do (attempt + 1) (Some out) sleeps' (calls + 1))
      else (after_loop c prev, sleeps, calls))"
  by pat_completeness auto
termination
  by (relation "measure (\<lambda>(c, do, attempt, prev, sleeps, calls). nat (maxRetries c - attempt))")
     auto

declare retry_loop.simps [simp del]

definition doRequestWithRetry ::
  "HTTPClient \<Rightarrow> (int \<Rightarrow> outcome) \<Rightarrow> (error + http_Response option) \<times> Duration list \<times> nat" where
  "doRequestWithRetry c do = retry_loop c do 0 None [] 0"

text \<open>
  \<^verbatim>\<open>http.NewRequest\<close> fails on a URL that does not parse; \<open>parses\<close> says which do.
  The headers of the caller are set one by one with \<^verbatim>\<open>req.Header.Set\<close>, then the default
  User-Agent when none is set. Go ranges over the caller's map in an unspecified
  order; here the order is that of the association list, which matters only between
  two keys of the caller that have the same canonical form.
\<close>

definition set_headers :: "header_map \<Rightarrow> header_map option \<Rightarrow> header_map" where
  "set_headers h hs =
     foldl (\<lambda>acc kv. header_Set acc (fst kv) (snd kv)) h (case hs of None \<Rightarrow> [] | Some m \<Rightarrow> m)"

definition build_request ::
  "(string \<Rightarrow> bool) \<Rightarrow> string \<Rightarrow> string \<Rightarrow> header_map option \<Rightarrow> error + http_Request" where
  "build_request parses method url headers =
     (if \<not> parses url then Inl CreateRequestFailed
      else
        (let h = set_headers [] headers;
             h' = (if header_Get h ''User-Agent'' = []
                   then header_Set h ''User-Agent'' ''CachedPath-Go/1.0''
                   else h)
         in Inr \<lparr>Method = method, URL = url, ReqHeader = h'\<rparr>))"

text \<open>
  \<^verbatim>\<open>io.Copy(writer, resp.Body)\<close>: the bytes that reach the writer and whether the copy
  ended without error. The writer fails after \<open>room\<close> bytes when \<open>room\<close> is given.
\<close>

definition io_Copy :: "nat option \<Rightarrow> http_Response \<Rightarrow> string \<times> bool" where
  "io_Copy room r =
     (let avail = (case BodyErrAfter r of None \<Rightarrow> Body r | Some n \<Rightarrow> take n (Body r));
          written = (case room of None \<Rightarrow> avail | Some m \<Rightarrow> take m avail);
          ok = (BodyErrAfter r = None \<and> (case room of None \<Rightarrow> True | Some m \<Rightarrow> length avail \<le> m))
      in (written, ok))"

text \<open>\<^verbatim>\<open>GetResource\<close>: the error, if any, and the bytes written to the writer.\<close>

definition GetResource ::
  "HTTPClient \<Rightarrow> (string \<Rightarrow> bool) \<Rightarrow> transport \<Rightarrow> string \<Rightarrow> nat option \<Rightarrow> header_map option
     \<Rightarrow> error option \<times> string" where
  "GetResource c parses do url room headers =
     (case build_request parses ''GET'' url headers of
        Inl e \<Rightarrow> (Some e, [])
      | Inr req \<Rightarrow>
          (case fst (doRequestWithRetry c (do req)) of
             Inl e \<Rightarrow> (Some (FailedToDownload e), [])
           | Inr None \<Rightarrow> (Some NilDereference, [])
           | Inr (Some resp) \<Rightarrow>
               if StatusCode resp \<noteq> 200 then (Some (DownloadStatus (StatusCode resp)), [])
               else (let (written, ok) = io_Copy room resp
                     in if ok then (None, written) else (Some WriteResponseFailed, written))))"

text \<open>
  \<^verbatim>\<open>strconv.ParseInt(s, 10, 64)\<close>: an optional sign, then one decimal digit or more,
  and a value that fits 64 signed bits; anything else is an error.
\<close>

definition digit_of :: "char \<Rightarrow> nat option" where
  "digit_of ch = (let n = (of_char ch :: nat) in if 48 \<le> n \<and> n \<le> 57 then Some (n - 48) else None)"

fun parse_uint :: "nat \<Rightarrow> string \<Rightarrow> nat option" where
  "parse_uint acc [] = Some acc"
| "parse_uint acc (ch # cs) =
     (case digit_of ch of None \<Rightarrow> None | Some d \<Rightarrow> parse_uint (acc * 10 + d) cs)"

definition ParseInt64 :: "string \<Rightarrow> int option" where
  "ParseInt64 s =
     (if s = [] then None
      else
        (let neg = (hd s = CHR ''-'');
             digits = (if hd s = CHR ''+'' \<or> hd s = CHR ''-'' then tl s else s)
         in if digits = [] then None
            else (case parse_uint 0 digits of
                    None \<Rightarrow> None
                  | Some un \<Rightarrow>
                      if \<not> neg \<and> un \<ge> 2 ^ 63 then None
                      else if neg \<and> un > 2 ^ 63 then None
                      else Some (if neg then - int un else int un))))"

text \<open>\<^verbatim>\<open>GetSize\<close>: the size of the resource by a HEAD request.\<close>

definition GetSize ::
  "HTTPClient \<Rightarrow> (string \<Rightarrow> bool) \<Rightarrow> transport \<Rightarrow> string \<Rightarrow> header_map option \<Rightarrow> error + int" where
  "GetSize c parses do url headers =
     (case build_request parses ''HEAD'' url headers of
        Inl e \<Rightarrow> Inl e
      | Inr req \<Rightarrow>
          (case fst (doRequestWithRetry c (do req)) of
             Inl e \<Rightarrow> Inl (FailedToGetSize e)
           | Inr None \<Rightarrow> Inl NilDereference
           | Inr (Some resp) \<Rightarrow>
               if StatusCode resp \<noteq> 200 then Inl (HeadStatus (StatusCode resp))
               else (let contentLength = header_Get (RespHeader resp) ''Content-Length''
                     in if contentLength = [] then Inr 0
                        else (case ParseInt64 contentLength of
                                None \<Rightarrow> Inl ParseContentLengthFailed
                              | Some sz \<Rightarrow> Inr sz))))"

text \<open>\<^verbatim>\<open>GetETag\<close>: the ETag of the resource, or its Last-Modified header.\<close>

definition GetETag ::
  "HTTPClient \<Rightarrow> (string \<Rightarrow> bool) \<Rightarrow> transport \<Rightarrow> string \<Rightarrow> header_map option \<Rightarrow> error + string" where
  "GetETag c parses do url headers =
     (case build_request parses ''HEAD'' url headers of
        Inl e \<Rightarrow> Inl e
      | Inr req \<Rightarrow>
          (case fst (doRequestWithRetry c (do req)) of
             Inl e \<Rightarrow> Inl (FailedToGetETag e)
           | Inr None \<Rightarrow> Inl NilDereference
           | Inr (Some resp) \<Rightarrow>
               if StatusCode resp \<noteq> 200 then Inl (HeadStatus (StatusCode resp))
               else (let etag = header_Get (RespHeader resp) ''ETag''
                     in if etag = [] then Inr (header_Get (RespHeader resp) ''Last-Modified'')
                        else Inr etag)))"

section \<open>Notions used to state the retry policy\<close>

text \<open>
  An attempt is retried when it ends in a transport error or in a response whose status
  is neither 200 nor in the range 400 to 499: the two tests of the loop body.
\<close>

definition retryable :: "outcome \<Rightarrow> bool" where
  "retryable out =
     (case out of
        NetErr e \<Rightarrow> True
      | Resp r \<Rightarrow> StatusCode r \<noteq> 200 \<and> \<not> (StatusCode r \<ge> 400 \<and> StatusCode r < 500))"

text \<open>The waits before the attempts 1 to \<open>k\<close>: the delay times the attempt number.\<close>

definition backoff :: "HTTPClient \<Rightarrow> int \<Rightarrow> Duration list" where
  "backoff c k = map (\<lambda>i. retryDelay c * word_of_int i) [1..k]"

section \<open>crypto/sha256 and encoding/hex\<close>

text \<open>
  SHA-256 as FIPS 180-4 defines it, on 32-bit words; a string is the list of its bytes.
  Writing the URL and then the ETag into the hash is hashing their concatenation. The
  round constants (the fractional parts of the cube roots of the first 64 primes) and the
  initial hash value (of the square roots of the first 8) are written in decimal.
\<close>

definition K256 :: "32 word list" where
  "K256 = [
      1116352408, 1899447441, 3049323471, 3921009573, 961987163, 1508970993,
      2453635748, 2870763221, 3624381080, 310598401, 607225278, 1426881987,
      1925078388, 2162078206, 2614888103, 3248222580, 3835390401, 4022224774,
      264347078, 604807628, 770255983, 1249150122, 1555081692, 1996064986,
      2554220882, 2821834349, 2952996808, 3210313671, 3336571891, 3584528711,
      113926993, 338241895, 666307205, 773529912, 1294757372, 1396182291,
      1695183700, 1986661051, 2177026350, 2456956037, 2730485921, 2820302411,
      3259730800, 3345764771, 3516065817, 3600352804, 4094571909, 275423344,
      430227734, 506948616, 659060556, 883997877, 958139571, 1322822218,
      1537002063, 1747873779, 1955562222, 2024104815, 2227730452, 2361852424,
      2428436474, 2756734187, 3204031479, 3329325298]"

definition H256 :: "32 word list" where
  "H256 = [
      1779033703, 3144134277, 1013904242, 2773480762,
      1359893119, 2600822924, 528734635, 1541459225]"

definition Ch :: "32 word \<Rightarrow> 32 word \<Rightarrow> 32 word \<Rightarrow> 32 word" where
  "Ch x y z = (x AND y) XOR (NOT x AND z)"

definition Maj :: "32 word \<Rightarrow> 32 word \<Rightarrow> 32 word \<Rightarrow> 32 word" where
  "Maj x y z = (x AND y) XOR (x AND z) XOR (y AND z)"

definition bsig0 :: "32 word \<Rightarrow> 32 word" where
  "bsig0 x = word_rotr 2 x XOR word_rotr 13 x XOR word_rotr 22 x"

definition bsig1 :: "32 word \<Rightarrow> 32 word" where
  "bsig1 x = word_rotr 6 x XOR word_rotr 11 x XOR word_rotr 25 x"

definition ssig0 :: "32 word \<Rightarrow> 32 word" where
  "ssig0 x = word_rotr 7 x XOR word_rotr 18 x XOR drop_bit 3 x"

definition ssig1 :: "32 word \<Rightarrow> 32 word" where
  "ssig1 x = word_rotr 17 x XOR word_rotr 19 x XOR drop_bit 10 x"

text \<open>The message schedule: 16 words of the block, extended to 64.\<close>

fun extend_schedule :: "nat \<Rightarrow> 32 word list \<Rightarrow> 32 word list" where
  "extend_schedule 0 w = w"
| "extend_schedule (Suc n) w =
     extend_schedule n
       (w @ [ssig1 (w ! (length w - 2)) + w ! (length w - 7) +
             ssig0 (w ! (length w - 15)) + w ! (length w - 16)])"

fun sha_round :: "32 word list \<Rightarrow> 32 word \<times> 32 word \<Rightarrow> 32 word list" where
  "sha_round [a, b, c, d, e, f, g, h] (k, w) =
     (let t1 = h + bsig1 e + Ch e f g + k + w;
          t2 = bsig0 a + Maj a b c
      in [t1 + t2, a, b, c, d + t1, e, f, g])"
| "sha_round st kw = st"

definition sha_block :: "32 word list \<Rightarrow> 32 word list \<Rightarrow> 32 word list" where
  "sha_block hs block =
     map2 (+) hs (foldl sha_round hs (zip K256 (extend_schedule 48 block)))"

definition be_word :: "8 word list \<Rightarrow> 32 word" where
  "be_word bs = foldl (\<lambda>acc b. push_bit 8 acc OR ucast b) 0 bs"

text \<open>A list cut into pieces of \<open>n\<close> elements.\<close>

function pieces :: "nat \<Rightarrow> 'a list \<Rightarrow> 'a list list" where
  "pieces n xs = (if n = 0 \<or> xs = [] then [] else take n xs # pieces n (drop n xs))"
  by pat_completeness auto
termination
  by (relation "measure (\<lambda>(n, xs). length xs)") auto

declare pieces.simps [simp del]

text \<open>The padding of a message of \<open>len\<close> bytes: a one bit, zeros, the length in bits.\<close>

definition sha_padding :: "nat \<Rightarrow> 8 word list" where
  "sha_padding len =
     0x80 # replicate ((64 - (len + 9) mod 64) mod 64) 0 @
     map (\<lambda>i. ucast (drop_bit (8 * (7 - i)) (word_of_nat (8 * len) :: 64 word))) [0..<8]"

definition sha256 :: "string \<Rightarrow> 32 word list" where
  "sha256 msg =
     (let bytes = map (\<lambda>ch. of_char ch :: 8 word) msg
      in foldl sha_block H256
           (pieces 16 (map be_word (pieces 4 (bytes @ sha_padding (length bytes))))))"

text \<open>\<^verbatim>\<open>hex.EncodeToString\<close> of the digest: two lower-case digits a byte.\<close>

definition hex_digit :: "32 word \<Rightarrow> char" where
  "hex_digit d = ''0123456789abcdef'' ! unat (d AND 15)"

definition hex_word :: "32 word \<Rightarrow> string" where
  "hex_word w = map (\<lambda>i. hex_digit (drop_bit (4 * (7 - i)) w)) [0..<8]"

definition sha256_hex :: "string \<Rightarrow> string" where
  "sha256_hex msg = concat (map hex_word (sha256 msg))"

section \<open>util.go: the cache file name\<close>

text \<open>
  \<^verbatim>\<open>filepath.Ext\<close>: the suffix of the path from the last dot of its last element on, empty
  when that element has no dot. The scan runs from the end of the path, as the library's.
\<close>

fun ext_scan :: "string \<Rightarrow> string \<Rightarrow> string" where
  "ext_scan [] acc = []"
| "ext_scan (ch # cs) acc =
     (if ch = CHR ''/'' then []
      else if ch = CHR ''.'' then ch # acc
      else ext_scan cs (ch # acc))"

definition Ext :: "string \<Rightarrow> string" where
  "Ext path = ext_scan (rev path) []"

text \<open>
  The part of \<^verbatim>\<open>url.Parse\<close> that gives the field \<^verbatim>\<open>Path\<close>, without the checks of the
  authority and without percent-decoding: exact on a URL that has neither a percent sign
  nor an ill-formed host. \<open>None\<close> is a parse error. \<^verbatim>\<open>ResourceToFilename\<close> below takes
  the parser as an argument, so that what is proved of it holds of the library's parser.
\<close>

definition is_letter :: "char \<Rightarrow> bool" where
  "is_letter ch =
     (let n = (of_char ch :: nat) in (97 \<le> n \<and> n \<le> 122) \<or> (65 \<le> n \<and> n \<le> 90))"

definition is_scheme_char :: "char \<Rightarrow> bool" where
  "is_scheme_char ch =
     (let n = (of_char ch :: nat)
      in (48 \<le> n \<and> n \<le> 57) \<or> ch = CHR ''+'' \<or> ch = CHR ''-'' \<or> ch = CHR ''.'')"

definition is_control :: "char \<Rightarrow> bool" where
  "is_control ch = (let n = (of_char ch :: nat) in n < 32 \<or> n = 127)"

fun scheme_scan :: "string \<Rightarrow> string \<Rightarrow> string \<Rightarrow> (string \<times> string) option" where
  "scheme_scan raw seen [] = Some ([], raw)"
| "scheme_scan raw seen (ch # cs) =
     (if is_letter ch then scheme_scan raw (ch # seen) cs
      else if is_scheme_char ch
        then (if seen = [] then Some ([], raw) else scheme_scan raw (ch # seen) cs)
      else if ch = CHR '':''
        then (if seen = [] then None else Some (rev seen, cs))
      else Some ([], raw))"

definition getScheme :: "string \<Rightarrow> (string \<times> string) option" where
  "getScheme rawURL = scheme_scan rawURL [] rawURL"

definition url_Path :: "string \<Rightarrow> string option" where
  "url_Path rawURL =
     (let u = takeWhile (\<lambda>ch. ch \<noteq> CHR ''#'') rawURL
      in if list_ex is_control u then None
         else if u = ''*'' then Some ''*''
         else
           (case getScheme u of
              None \<Rightarrow> None
            | Some (scheme, rest0) \<Rightarrow>
                (let rest = takeWhile (\<lambda>ch. ch \<noteq> CHR ''?'') rest0
                 in if \<not> prefix ''/'' rest
                    then (if scheme \<noteq> [] then Some []
                          else if CHR '':'' \<in> set (takeWhile (\<lambda>ch. ch \<noteq> CHR ''/'') rest)
                            then None
                          else Some rest)
                    else if (scheme \<noteq> [] \<or> \<not> prefix ''///'' rest) \<and> prefix ''//'' rest
                      then Some (dropWhile (\<lambda>ch. ch \<noteq> CHR ''/'') (drop 2 rest))
                    else Some rest)))"

text \<open>
  \<^verbatim>\<open>ResourceToFilename\<close>: the hash of the URL and the ETag, with the extension of the URL's
  path. The error of \<^verbatim>\<open>url.Parse\<close> is dropped, and on a URL that does not parse the
  read of \<^verbatim>\<open>u.Path\<close> goes through a nil pointer.
\<close>

definition ResourceToFilename ::
  "(string \<Rightarrow> string option) \<Rightarrow> string \<Rightarrow> string \<Rightarrow> error + string" where
  "ResourceToFilename parse_path resourceURL etag =
     (let hashStr = sha256_hex (resourceURL @ (if etag \<noteq> [] then etag else []))
      in case parse_path resourceURL of
           None \<Rightarrow> Inl NilDereference
         | Some path \<Rightarrow>
             (let ext = Ext path
              in if ext \<noteq> [] then Inr (hashStr @ ext) else Inr hashStr))"

definition LockFilePath :: "string \<Rightarrow> string" where
  "LockFilePath cachePath = cachePath @ ''.lock''"

definition MetaFilePath :: "string \<Rightarrow> string" where
  "MetaFilePath cachePath = cachePath @ ''.meta.json''"

section \<open>meta.go, filelock.go: metadata and the file lock\<close>

text \<open>
  The file system as the cache functions see it: what is at a path, a file with its
  content or a directory. \<^verbatim>\<open>FileExists\<close> is a successful \<^verbatim>\<open>os.Stat\<close>. The field \<^verbatim>\<open>URL\<close>
  of the metadata is \<open>MetaURL\<close> here.
\<close>

datatype node = RegularFile string | Directory

type_synonym fs = "string \<Rightarrow> node option"

definition FileExists :: "fs \<Rightarrow> string \<Rightarrow> bool" where
  "FileExists s path = (s path \<noteq> None)"

record Meta =
  MetaURL :: string
  ETag :: string
  CachedPath :: string
  CreatedAt :: int

definition NewMeta :: "int \<Rightarrow> string \<Rightarrow> string \<Rightarrow> string \<Rightarrow> Meta" where
  "NewMeta now url cachedPath etag =
     \<lparr>MetaURL = url, ETag = etag, CachedPath = cachedPath, CreatedAt = now\<rparr>"

datatype flock_result = Locked | WouldBlock | FlockError

text \<open>
  What the functions take from outside the program: whether a URL parses, the answers
  of the HTTP transport, the room of the writer, the name \<^verbatim>\<open>os.CreateTemp\<close> picks (if
  it succeeds), whether the rename and the reads fail, the JSON decoder of the metadata,
  and the answers of \<^verbatim>\<open>syscall.Flock\<close> try after try.
\<close>

record env =
  url_parses :: "string \<Rightarrow> bool"
  http_do :: transport
  sink_room :: "nat option"
  temp_name :: "string option"
  rename_fails :: bool
  read_denied :: "string \<Rightarrow> bool"
  decode_meta :: "string \<Rightarrow> Meta option"
  open_lock_fails :: bool
  flock :: "nat \<Rightarrow> flock_result"

definition ReadFile :: "env \<Rightarrow> fs \<Rightarrow> string \<Rightarrow> error + string" where
  "ReadFile e s path =
     (if read_denied e path then Inl IOError
      else (case s path of
              Some (RegularFile d) \<Rightarrow> Inr d
            | Some Directory \<Rightarrow> Inl IOError
            | None \<Rightarrow> Inl IOError))"

definition LoadMetaFromFile :: "env \<Rightarrow> fs \<Rightarrow> string \<Rightarrow> error + Meta" where
  "LoadMetaFromFile e s path =
     (case ReadFile e s path of
        Inl err \<Rightarrow> Inl err
      | Inr d \<Rightarrow> (case decode_meta e d of None \<Rightarrow> Inl IOError | Some m \<Rightarrow> Inr m))"

text \<open>\<^verbatim>\<open>Lock\<close>: up to 60 tries of a non-blocking exclusive lock.\<close>

fun lock_tries :: "(nat \<Rightarrow> flock_result) \<Rightarrow> nat \<Rightarrow> nat \<Rightarrow> error option" where
  "lock_tries fl 0 i = Some ErrLockFailed"
| "lock_tries fl (Suc n) i =
     (case fl i of
        Locked \<Rightarrow> None
      | WouldBlock \<Rightarrow> lock_tries fl n (Suc i)
      | FlockError \<Rightarrow> Some LockError)"

definition Lock :: "env \<Rightarrow> error option" where
  "Lock e = (if open_lock_fails e then Some LockError else lock_tries (flock e) 60 0)"

section \<open>cachedpath.go: download into the cache\<close>

text \<open>
  \<^verbatim>\<open>downloadFile\<close>. The result is the error, if any, and the states the file system goes
  through, the last one being the state at return: the temporary file is created empty,
  grows as the response is copied, and is then renamed to the destination, or removed
  by the deferred \<^verbatim>\<open>os.Remove\<close>. An error of \<^verbatim>\<open>GetSize\<close> is dropped and an error of
  \<^verbatim>\<open>GetResource\<close> is wrapped; a panic of either goes up as it is.
\<close>

definition downloadFile ::
  "env \<Rightarrow> HTTPClient \<Rightarrow> string \<Rightarrow> string \<Rightarrow> Options \<Rightarrow> fs \<Rightarrow> error option \<times> fs list" where
  "downloadFile e c url destPath opts s =
     (if GetSize c (url_parses e) (http_do e) url (Headers opts) = Inl NilDereference
      then (Some NilDereference, [s])
      else
        (case temp_name e of
           None \<Rightarrow> (Some CreateTempFailed, [s])
         | Some tmpPath \<Rightarrow>
             if s tmpPath \<noteq> None then (Some CreateTempFailed, [s])
             else
               (let got = GetResource c (url_parses e) (http_do e) url (sink_room e) (Headers opts);
                    written = snd got;
                    growing = map (\<lambda>n. s(tmpPath \<mapsto> RegularFile (take n written)))
                                [0..<Suc (length written)];
                    s2 = s(tmpPath \<mapsto> RegularFile written)
                in case fst got of
                     Some err \<Rightarrow>
                       (Some (if err = NilDereference then err else ErrDownloadFailed err),
                        s # growing @ [s2(tmpPath := None)])
                   | None \<Rightarrow>
                       if rename_fails e
                       then (Some MoveFailed, s # growing @ [s2(tmpPath := None)])
                       else (None, s # growing @ [(s2(tmpPath := None))(destPath \<mapsto> RegularFile written)]))))"

text \<open>
  The function that \<^verbatim>\<open>handleRemoteURL\<close> runs under the lock: nothing to do when the
  cache is up to date, a download otherwise.
\<close>

datatype cache_step = UpToDate | Downloaded "error option \<times> fs list"

definition cache_body ::
  "env \<Rightarrow> HTTPClient \<Rightarrow> string \<Rightarrow> string \<Rightarrow> string \<Rightarrow> Options \<Rightarrow> fs \<Rightarrow> cache_step" where
  "cache_body e c url cachePath etag opts s =
     (if FileExists s cachePath then
        (let metaPath = MetaFilePath cachePath
         in if FileExists s metaPath then
              (case LoadMetaFromFile e s metaPath of
                 Inr meta \<Rightarrow>
                   if ETag meta = etag then UpToDate
                   else Downloaded (downloadFile e c url cachePath opts s)
               | Inl err \<Rightarrow> Downloaded (downloadFile e c url cachePath opts s))
            else Downloaded (downloadFile e c url cachePath opts s))
      else Downloaded (downloadFile e c url cachePath opts s))"

text \<open>
  \<^verbatim>\<open>WithLock\<close> around that function: the lock file is opened (and created), and the
  function runs only once the lock is held.
\<close>

definition WithLock_cache ::
  "env \<Rightarrow> HTTPClient \<Rightarrow> string \<Rightarrow> string \<Rightarrow> string \<Rightarrow> Options \<Rightarrow> fs \<Rightarrow> error + cache_step" where
  "WithLock_cache e c url cachePath etag opts s =
     (case Lock e of
        Some err \<Rightarrow> Inl err
      | None \<Rightarrow>
          (let lockPath = LockFilePath cachePath;
               s1 = (if s lockPath = None then s(lockPath \<mapsto> RegularFile []) else s)
           in Inr (cache_body e c url cachePath etag opts s1)))"

section \<open>The freshness test in the words of the specification\<close>

text \<open>
  A cache entry is fresh when the cache file exists and a metadata record exists at the
  entry's metadata path, can be read, and stores the given revision token.
\<close>

definition isFresh :: "env \<Rightarrow> fs \<Rightarrow> string \<Rightarrow> string \<Rightarrow> bool" where
  "isFresh e s cachePath revisionToken \<longleftrightarrow>
     s cachePath \<noteq> None \<and>
     (case LoadMetaFromFile e s (MetaFilePath cachePath) of
        Inl err \<Rightarrow> False
      | Inr m \<Rightarrow> ETag m = revisionToken)"

section \<open>path/filepath on Unix\<close>

text \<open>
  The functions of the Go library that \<^verbatim>\<open>archive.go\<close> calls, for the separator \<open>/\<close>.
  \<^verbatim>\<open>strings.Split\<close> on the separator gives the elements of a path; an empty string
  has one (empty) element.
\<close>

fun split_path :: "string \<Rightarrow> string list" where
  "split_path [] = [[]]"
| "split_path (ch # cs) =
     (if ch = CHR ''/'' then [] # split_path cs
      else (ch # hd (split_path cs)) # tl (split_path cs))"

text \<open>\<^verbatim>\<open>strings.Join\<close> with the separator.\<close>

fun join_path :: "string list \<Rightarrow> string" where
  "join_path [] = []"
| "join_path [x] = x"
| "join_path (x # y # ys) = x @ CHR ''/'' # join_path (y # ys)"

text \<open>
  One element in the loop of \<^verbatim>\<open>Clean\<close>, on the elements written so far (the last one
  first): an empty element and \<open>.\<close> are skipped; \<open>..\<close> removes the last element when that
  is a name, is kept when the path is not rooted, and is dropped at the root; a name is
  added.
\<close>

definition clean_step :: "bool \<Rightarrow> string list \<Rightarrow> string \<Rightarrow> string list" where
  "clean_step rooted out x =
     (if x = [] \<or> x = ''.'' then out
      else if x = ''..'' then
        (if out \<noteq> [] \<and> hd out \<noteq> ''..'' then tl out
         else if \<not> rooted then ''..'' # out
         else out)
      else x # out)"

definition clean_elems :: "bool \<Rightarrow> string list \<Rightarrow> string list" where
  "clean_elems rooted xs = rev (foldl (clean_step rooted) [] xs)"

definition is_rooted :: "string \<Rightarrow> bool" where
  "is_rooted path = (path \<noteq> [] \<and> hd path = CHR ''/'')"

definition Clean :: "string \<Rightarrow> string" where
  "Clean path =
     (if path = [] then ''.''
      else
        (let out = clean_elems (is_rooted path) (split_path path)
         in if is_rooted path then CHR ''/'' # join_path out
            else if out = [] then ''.''
            else join_path out))"

text \<open>\<^verbatim>\<open>Join\<close>: the elements from the first non-empty one on, joined and cleaned.\<close>

fun Join :: "string list \<Rightarrow> string" where
  "Join [] = []"
| "Join (x # xs) = (if x = [] then Join xs else Clean (join_path (x # xs)))"

declare Join.simps [simp del]

text \<open>\<^verbatim>\<open>Base\<close>: the last element of the path, trailing separators removed first.\<close>

definition Base :: "string \<Rightarrow> string" where
  "Base path =
     (if path = [] then ''.''
      else
        (let p = rev (dropWhile (\<lambda>ch. ch = CHR ''/'') (rev path));
             x = rev (takeWhile (\<lambda>ch. ch \<noteq> CHR ''/'') (rev p))
         in if x = [] then ''/'' else x))"

text \<open>\<^verbatim>\<open>Dir\<close>: the path up to its last separator, cleaned.\<close>

definition Dir :: "string \<Rightarrow> string" where
  "Dir path = Clean (rev (dropWhile (\<lambda>ch. ch \<noteq> CHR ''/'') (rev path)))"

definition HasPrefix :: "string \<Rightarrow> string \<Rightarrow> bool" where
  "HasPrefix s p = prefix p s"

section \<open>archive.go: extraction\<close>

text \<open>
  The calls an extraction makes on the file system, in order: \<^verbatim>\<open>os.MkdirAll\<close>, the
  opening of a file for writing (created or truncated), and the copy of an entry's bytes
  into the file just opened. Whether a call fails is for the file system to say, given the
  calls made before it.
\<close>

datatype fs_op = MkdirAll string | OpenFile string | CopyTo string string

type_synonym fs_oracle = "fs_op list \<Rightarrow> fs_op \<Rightarrow> bool"

fun op_path :: "fs_op \<Rightarrow> string" where
  "op_path (MkdirAll p) = p"
| "op_path (OpenFile p) = p"
| "op_path (CopyTo p d) = p"

text \<open>An entry of a ZIP archive: its stored name, whether it is a directory, its bytes.\<close>

record zip_File =
  Name :: string
  IsDir :: bool
  Mode :: nat
  Content :: string
  OpenFails :: bool

text \<open>
  What \<^verbatim>\<open>tar.Reader.Next\<close> yields, call after call: a header with the bytes of its entry,
  or a read error; the end of the list is \<^verbatim>\<open>io.EOF\<close>. The field \<^verbatim>\<open>Name\<close> of a header is
  \<open>TarName\<close> here.
\<close>

record tar_Header =
  TarName :: string
  Typeflag :: char

definition TypeReg :: char where
  "TypeReg = CHR ''0''"

definition TypeDir :: char where
  "TypeDir = CHR ''5''"

datatype tar_item = Entry tar_Header string | Corrupt

text \<open>
  What is in an archive file; \<open>None\<close> below is a file that cannot be opened. A gzip
  stream that is not a tar archive is a tar archive whose first header is a read error.
\<close>

datatype archive = ZipArchive "zip_File list" | TarGzArchive "tar_item list" | Garbage

definition extractZipFile ::
  "fs_oracle \<Rightarrow> zip_File \<Rightarrow> string \<Rightarrow> fs_op list \<Rightarrow> error option \<times> fs_op list" where
  "extractZipFile fails f destDir log =
     (let filePath = Join [destDir, Name f]
      in if \<not> HasPrefix filePath (Clean destDir @ ''/'')
         then (Some (InvalidFilePath filePath), log)
         else if IsDir f
           then (if fails log (MkdirAll filePath) then Some IOError else None,
                 log @ [MkdirAll filePath])
         else
           (let log1 = log @ [MkdirAll (Dir filePath)]
            in if fails log (MkdirAll (Dir filePath)) then (Some IOError, log1)
               else
                 (let log2 = log1 @ [OpenFile filePath]
                  in if fails log1 (OpenFile filePath) then (Some IOError, log2)
                     else if OpenFails f then (Some IOError, log2)
                     else
                       (let log3 = log2 @ [CopyTo filePath (Content f)]
                        in (if fails log2 (CopyTo filePath (Content f)) then Some IOError
                            else None, log3)))))"

fun extractZip_files ::
  "fs_oracle \<Rightarrow> zip_File list \<Rightarrow> string \<Rightarrow> fs_op list \<Rightarrow> error option \<times> fs_op list" where
  "extractZip_files fails [] destDir log = (None, log)"
| "extractZip_files fails (f # fs) destDir log =
     (case extractZipFile fails f destDir log of
        (Some err, log') \<Rightarrow> (Some err, log')
      | (None, log') \<Rightarrow> extractZip_files fails fs destDir log')"

definition extractZip ::
  "fs_oracle \<Rightarrow> archive option \<Rightarrow> string \<Rightarrow> fs_op list \<Rightarrow> error option \<times> fs_op list" where
  "extractZip fails zipFile destDir log =
     (case zipFile of
        Some (ZipArchive files) \<Rightarrow> extractZip_files fails files destDir log
      | _ \<Rightarrow> (Some OpenZipFailed, log))"

text \<open>The loop of \<^verbatim>\<open>extractTarGz\<close> over the headers.\<close>

fun extractTar_items ::
  "fs_oracle \<Rightarrow> tar_item list \<Rightarrow> string \<Rightarrow> fs_op list \<Rightarrow> error option \<times> fs_op list" where
  "extractTar_items fails [] destDir log = (None, log)"
| "extractTar_items fails (Corrupt # items) destDir log = (Some ReadTarFailed, log)"
| "extractTar_items fails (Entry header body # items) destDir log =
     (let target = Join [destDir, TarName header]
      in if \<not> HasPrefix target (Clean destDir @ ''/'')
         then (Some (InvalidFilePath target), log)
         else if Typeflag header = TypeDir
           then (if fails log (MkdirAll target) then (Some IOError, log @ [MkdirAll target])
                 else extractTar_items fails items destDir (log @ [MkdirAll target]))
         else if Typeflag header = TypeReg
           then
             (let log1 = log @ [MkdirAll (Dir target)]
              in if fails log (MkdirAll (Dir target)) then (Some IOError, log1)
                 else
                   (let log2 = log1 @ [OpenFile target]
                    in if fails log1 (OpenFile target) then (Some IOError, log2)
                       else
                         (let log3 = log2 @ [CopyTo target body]
                          in if fails log2 (CopyTo target body) then (Some IOError, log3)
                             else extractTar_items fails items destDir log3)))
         else extractTar_items fails items destDir log)"

definition extractTarGz ::
  "fs_oracle \<Rightarrow> archive option \<Rightarrow> string \<Rightarrow> fs_op list \<Rightarrow> error option \<times> fs_op list" where
  "extractTarGz fails tarGzFile destDir log =
     (case tarGzFile of
        None \<Rightarrow> (Some OpenTarGzFailed, log)
      | Some (TarGzArchive items) \<Rightarrow> extractTar_items fails items destDir log
      | Some other \<Rightarrow> (Some GzipReaderFailed, log))"

text \<open>Extraction of one entry: the first entry with the requested name.\<close>

fun extractSpecific_files ::
  "fs_oracle \<Rightarrow> zip_File list \<Rightarrow> string \<Rightarrow> string \<Rightarrow> fs_op list
     \<Rightarrow> (error + string) \<times> fs_op list" where
  "extractSpecific_files fails [] internalPath destDir log =
     (Inl (FileNotInArchive internalPath), log)"
| "extractSpecific_files fails (f # fs) internalPath destDir log =
     (if Name f = internalPath then
        (let destPath = Join [destDir, Base internalPath];
             log1 = log @ [MkdirAll (Dir destPath)]
         in if fails log (MkdirAll (Dir destPath)) then (Inl IOError, log1)
            else
              (let log2 = log1 @ [OpenFile destPath]
               in if fails log1 (OpenFile destPath) then (Inl IOError, log2)
                  else if OpenFails f then (Inl IOError, log2)
                  else
                    (let log3 = log2 @ [CopyTo destPath (Content f)]
                     in if fails log2 (CopyTo destPath (Content f)) then (Inl IOError, log3)
                        else (Inr destPath, log3))))
      else extractSpecific_files fails fs internalPath destDir log)"

definition extractSpecificFromZip ::
  "fs_oracle \<Rightarrow> archive option \<Rightarrow> string \<Rightarrow> string \<Rightarrow> fs_op list
     \<Rightarrow> (error + string) \<times> fs_op list" where
  "extractSpecificFromZip fails zipFile internalPath destDir log =
     (case zipFile of
        Some (ZipArchive files) \<Rightarrow> extractSpecific_files fails files internalPath destDir log
      | _ \<Rightarrow> (Inl OpenZipFailed, log))"

fun extractSpecific_items ::
  "fs_oracle \<Rightarrow> tar_item list \<Rightarrow> string \<Rightarrow> string \<Rightarrow> fs_op list
     \<Rightarrow> (error + string) \<times> fs_op list" where
  "extractSpecific_items fails [] internalPath destDir log =
     (Inl (FileNotInArchive internalPath), log)"
| "extractSpecific_items fails (Corrupt # items) internalPath destDir log =
     (Inl ReadTarFailed, log)"
| "extractSpecific_items fails (Entry header body # items) internalPath destDir log =
     (if TarName header = internalPath \<and> Typeflag header = TypeReg then
        (let destPath = Join [destDir, Base internalPath];
             log1 = log @ [MkdirAll (Dir destPath)]
         in if fails log (MkdirAll (Dir destPath)) then (Inl IOError, log1)
            else
              (let log2 = log1 @ [OpenFile destPath]
               in if fails log1 (OpenFile destPath) then (Inl IOError, log2)
                  else
                    (let log3 = log2 @ [CopyTo destPath body]
                     in if fails log2 (CopyTo destPath body) then (Inl IOError, log3)
                        else (Inr destPath, log3))))
      else extractSpecific_items fails items internalPath destDir log)"

definition extractSpecificFromTarGz ::
  "fs_oracle \<Rightarrow> archive option \<Rightarrow> string \<Rightarrow> string \<Rightarrow> fs_op list
     \<Rightarrow> (error + string) \<times> fs_op list" where
  "extractSpecificFromTarGz fails tarGzFile internalPath destDir log =
     (case tarGzFile of
        None \<Rightarrow> (Inl OpenTarGzFailed, log)
      | Some (TarGzArchive items) \<Rightarrow> extractSpecific_items fails items internalPath destDir log
      | Some other \<Rightarrow> (Inl GzipReaderFailed, log))"

section \<open>Where a path leads\<close>

text \<open>
  The place a path names, as the list of names from the root down to it, for a process
  whose working directory is \<open>cwd\<close>: a rooted path starts at the root and any other at
  the working directory; an empty element and \<open>.\<close> stay in place, \<open>..\<close> goes to the
  parent (the root is its own parent), a name goes down. This is how the system resolves
  a path no element of which is a symbolic link.
\<close>

definition walk :: "string list \<Rightarrow> string \<Rightarrow> string list" where
  "walk at x =
     (if x = [] \<or> x = ''.'' then at
      else if x = ''..'' then tl at
      else x # at)"

definition resolve :: "string list \<Rightarrow> string \<Rightarrow> string list" where
  "resolve cwd path =
     rev (foldl walk (if is_rooted path then [] else rev cwd) (split_path path))"

text \<open>
  A path leads below a directory (\<open>inside\<close>), or to an entry of the directory itself
  (\<open>directly_inside\<close>).
\<close>

definition inside :: "string list \<Rightarrow> string \<Rightarrow> string \<Rightarrow> bool" where
  "inside cwd dir path = strict_prefix (resolve cwd dir) (resolve cwd path)"

definition directly_inside :: "string list \<Rightarrow> string \<Rightarrow> string \<Rightarrow> bool" where
  "directly_inside cwd dir path =
     (length (resolve cwd path) = Suc (length (resolve cwd dir)) \<and>
      prefix (resolve cwd dir) (resolve cwd path))"

text \<open>A directory path that, once cleaned, ends in \<open>..\<close>.\<close>

definition ends_in_dotdot :: "string \<Rightarrow> bool" where
  "ends_in_dotdot dir =
     (let out = clean_elems (is_rooted dir) (split_path dir)
      in out \<noteq> [] \<and> last out = ''..'')"

text \<open>A path leads to the directory or below it.\<close>

definition within :: "string list \<Rightarrow> string \<Rightarrow> string \<Rightarrow> bool" where
  "within cwd dir path = prefix (resolve cwd dir) (resolve cwd path)"

text \<open>
  A call is confined to a directory when a file it opens or fills is below the
  directory, and a directory it makes is the directory or below it.
\<close>

fun confined :: "string list \<Rightarrow> string \<Rightarrow> fs_op \<Rightarrow> bool" where
  "confined cwd dir (MkdirAll p) = within cwd dir p"
| "confined cwd dir (OpenFile p) = inside cwd dir p"
| "confined cwd dir (CopyTo p d) = inside cwd dir p"

fun is_write :: "fs_op \<Rightarrow> bool" where
  "is_write (MkdirAll p) = False"
| "is_write (OpenFile p) = True"
| "is_write (CopyTo p d) = True"

text \<open>A call of the extraction of one entry is at the output path or at its directory.\<close>

definition at_dest :: "string \<Rightarrow> fs_op \<Rightarrow> bool" where
  "at_dest p op = (op_path op = (if is_write op then p else Dir p))"

section \<open>Notions used in the proofs about paths\<close>

text \<open>The string of a cleaned path, from its elements.\<close>

definition render :: "bool \<Rightarrow> string list \<Rightarrow> string" where
  "render rooted out =
     (if rooted then CHR ''/'' # join_path out
      else if out = [] then ''.''
      else join_path out)"

text \<open>Elements as \<^verbatim>\<open>Clean\<close> keeps them: not empty, not \<open>.\<close>, without separator.\<close>

definition plain :: "string list \<Rightarrow> bool" where
  "plain xs \<longleftrightarrow> (\<forall>x \<in> set xs. x \<noteq> [] \<and> x \<noteq> ''.'' \<and> CHR ''/'' \<notin> set x)"

text \<open>Names: plain elements other than \<open>..\<close>.\<close>

definition names :: "string list \<Rightarrow> bool" where
  "names xs \<longleftrightarrow> (\<forall>x \<in> set xs. x \<noteq> [] \<and> x \<noteq> ''.'' \<and> x \<noteq> ''..'' \<and> CHR ''/'' \<notin> set x)"

text \<open>
  The invariant of the loop of \<^verbatim>\<open>Clean\<close>, on the elements written so far with the last
  one first: names, then the leading \<open>..\<close> elements, of which a rooted path has none.
\<close>

definition kept :: "bool \<Rightarrow> string list \<Rightarrow> bool" where
  "kept rooted out \<longleftrightarrow>
     (\<exists>k ns. out = ns @ replicate k ''..'' \<and> ''..'' \<notin> set ns \<and> (rooted \<longrightarrow> k = 0)) \<and>
     (\<forall>x \<in> set out. x \<noteq> [] \<and> x \<noteq> ''.'' \<and> CHR ''/'' \<notin> set x)"

section \<open>Concrete inputs for the examples\<close>

text \<open>
  An environment whose transport answers 503 to every attempt and whose codec reads one
  metadata record, and a cache directory that holds a file with that record.
\<close>

definition example_env :: env where
  "example_env =
     \<lparr>url_parses = (\<lambda>u. True),
      http_do =
        (\<lambda>req n. Resp \<lparr>StatusCode = 503, RespHeader = [], Body = ''busy'',
                         BodyErrAfter = None\<rparr>),
      sink_room = None, temp_name = Some ''/c/.download-1'', rename_fails = False,
      read_denied = (\<lambda>p. False),
      decode_meta =
        (\<lambda>d. if d = ''meta-v1'' then Some (NewMeta 0 ''http://h/f'' ''/c/0a'' ''v1'') else None),
      open_lock_fails = False, flock = (\<lambda>i. Locked)\<rparr>"

definition example_fs :: fs where
  "example_fs =
     [''/c/0a'' \<mapsto> RegularFile ''data'', ''/c/0a.meta.json'' \<mapsto> RegularFile ''meta-v1'']"

chapter \<open>Verified properties\<close>

section \<open>Header names\<close>

lemma canonical_User_Agent [simp]: "CanonicalMIMEHeaderKey ''User-Agent'' = ''User-Agent''"
  by code_simp

lemma canonical_Content_Length [simp]:
  "CanonicalMIMEHeaderKey ''Content-Length'' = ''Content-Length''"
  by code_simp

lemma canonical_lower_case: "CanonicalMIMEHeaderKey ''user-agent'' = ''User-Agent''"
  by code_simp

lemma canonical_ETag: "CanonicalMIMEHeaderKey ''ETag'' = ''Etag''"
  by code_simp

lemma canonical_space: "CanonicalMIMEHeaderKey ''my key'' = ''my key''"
  by code_simp

lemma set_headers_canonical:
  "build_request (\<lambda>u. True) ''GET'' ''http://h/f'' (Some [(''user-agent'', ''mine'')]) =
   Inr \<lparr>Method = ''GET'', URL = ''http://h/f'', ReqHeader = [(''User-Agent'', ''mine'')]\<rparr>"
  by code_simp

section \<open>Identifier parsing: properties\<close>

lemma cut_first_None: "cut_first c s = None \<longleftrightarrow> c \<notin> set s"
  by (induction s) (auto split: option.splits)

lemma cut_first_Some:
  "cut_first c s = Some (a, b) \<longleftrightarrow> s = a @ c # b \<and> c \<notin> set a"
proof (induction s arbitrary: a)
  case Nil
  then show ?case by simp
next
  case (Cons x xs)
  show ?case
  proof (cases "x = c")
    case True
    then show ?thesis by (cases a) auto
  next
    case False
    show ?thesis
    proof (cases a)
      case Nil
      with False show ?thesis by (auto split: option.splits)
    next
      case (Cons y ys)
      with False Cons.IH [of ys] show ?thesis
        by (auto split: option.splits)
    qed
  qed
qed

text \<open>
  C8, as amended. When \<^verbatim>\<open>ParseArchivePath\<close> reports an internal entry, the identifier
  is the base, the first marker and the entry, in this order, and the base holds no
  marker. The entry is what follows the first marker, taken as it is: it is empty
  exactly when the identifier ends with its first marker.
\<close>

theorem ParseArchivePath_entry:
  "ParseArchivePath p = (a, i, True) \<Longrightarrow>
     p = a @ CHR ''!'' # i \<and> CHR ''!'' \<notin> set a \<and> (i = [] \<longleftrightarrow> p = a @ ''!'')"
proof -
  assume r: "ParseArchivePath p = (a, i, True)"
  show ?thesis
  proof (cases "cut_first (CHR ''!'') p")
    case None
    with r show ?thesis by (simp add: ParseArchivePath_def SplitN2_def)
  next
    case (Some ab)
    obtain a' i' where ab: "ab = (a', i')" by (cases ab)
    from r Some ab have "a' = a" "i' = i"
      by (simp_all add: ParseArchivePath_def SplitN2_def)
    with Some ab have "cut_first (CHR ''!'') p = Some (a, i)" by simp
    then have *: "p = a @ CHR ''!'' # i" and **: "CHR ''!'' \<notin> set a"
      unfolding cut_first_Some by blast+
    from * have "i = [] \<longleftrightarrow> p = a @ ''!''" by auto
    with * ** show ?thesis by blast
  qed
qed

theorem ParseArchivePath_entry_witness:
  "ParseArchivePath ''m.tgz!w'' = (''m.tgz'', ''w'', True) \<and>
   ''m.tgz!w'' = ''m.tgz'' @ CHR ''!'' # ''w'' \<and> CHR ''!'' \<notin> set ''m.tgz'' \<and>
   (''w'' = [] \<longleftrightarrow> ''m.tgz!w'' = ''m.tgz'' @ ''!'')"
proof -
  have h: "ParseArchivePath ''m.tgz!w'' = (''m.tgz'', ''w'', True)"
    by (simp add: ParseArchivePath_def SplitN2_def)
  from ParseArchivePath_entry [OF h] h show ?thesis by blast
qed

text \<open>
  C8, as stated, fails: for the identifier \<^verbatim>\<open>a.zip!\<close> the parser reports an internal
  entry and the entry is the empty string.
\<close>

theorem ParseArchivePath_empty_entry:
  "ParseArchivePath ''a.zip!'' = (''a.zip'', [], True)"
  by (simp add: ParseArchivePath_def SplitN2_def)

section \<open>Options: basic authentication\<close>

lemma WithBasicAuth_Headers:
  "Headers (WithBasicAuth u p opts) = (case Headers opts of None \<Rightarrow> Some [] | Some m \<Rightarrow> Some m)"
  by (simp add: WithBasicAuth_def Let_def split: option.splits)

lemma WithBasicAuth_HTTPClient:
  "HTTPClient (WithBasicAuth u p opts) =
     (case HTTPClient opts of None \<Rightarrow> Some zero_http_Client | Some c \<Rightarrow> Some c)"
  by (simp add: WithBasicAuth_def Let_def split: option.splits)

section \<open>The retry loop\<close>

lemma backoff_snoc: "0 < k \<Longrightarrow> backoff c (k - 1) @ [retryDelay c * word_of_int k] = backoff c k"
  by (simp add: backoff_def upto_rec2)

lemma backoff_nonpos: "k \<le> 0 \<Longrightarrow> backoff c k = []"
  by (simp add: backoff_def)

lemma length_backoff: "length (backoff c k) = nat k"
  by (simp add: backoff_def)

lemma nth_backoff: "i < nat k \<Longrightarrow> backoff c k ! i = retryDelay c * word_of_nat (i + 1)"
  by (simp add: backoff_def)

text \<open>One pass through the loop body.\<close>

lemma retry_loop_retry:
  assumes "a < maxRetries c" "retryable (do a)"
  shows "retry_loop c do a prev sl n =
           retry_loop c do (a + 1) (Some (do a))
             (if a > 0 then sl @ [retryDelay c * word_of_int a] else sl) (n + 1)"
proof (cases "do a")
  case (NetErr e)
  then show ?thesis using assms retry_loop.simps [of c "do" a prev sl n] by (simp add: Let_def)
next
  case (Resp r')
  with assms show ?thesis using retry_loop.simps [of c "do" a prev sl n]
    by (auto simp: Let_def retryable_def)
qed

lemma retry_loop_stop:
  assumes "a \<le> maxRetries c" "\<not> retryable (do a) \<or> a = maxRetries c"
  shows "retry_loop c do a prev sl n =
           (after_loop c (Some (do a)),
            (if a > 0 then sl @ [retryDelay c * word_of_int a] else sl), n + 1)"
proof (cases "do a")
  case (NetErr e)
  then show ?thesis using assms retry_loop.simps [of c "do" a prev sl n]
    by (simp add: Let_def retryable_def)
next
  case (Resp r')
  with assms show ?thesis using retry_loop.simps [of c "do" a prev sl n]
    by (auto simp: Let_def retryable_def after_loop_def)
qed

lemma retry_loop_none:
  "maxRetries c < a \<Longrightarrow> retry_loop c do a prev sl n = (after_loop c prev, sl, n)"
  using retry_loop.simps [of c "do" a prev sl n] by simp

text \<open>The loop from attempt \<open>a\<close> with the waits of the attempts before it done.\<close>

lemma retry_loop_run:
  assumes "0 \<le> a" "a \<le> k" "k \<le> maxRetries c"
    and "\<forall>j. a \<le> j \<and> j < k \<longrightarrow> retryable (do j)"
    and "\<not> retryable (do k) \<or> k = maxRetries c"
  shows "retry_loop c do a prev (backoff c (a - 1)) (nat a) =
           (after_loop c (Some (do k)), backoff c k, nat k + 1)"
  using assms
proof (induction "nat (k - a)" arbitrary: a prev)
  case 0
  then have ak: "a = k" by simp
  have "(if a > 0 then backoff c (a - 1) @ [retryDelay c * word_of_int a] else backoff c (a - 1))
          = backoff c a"
    using "0.prems"(1) by (cases "a > 0") (simp_all add: backoff_snoc backoff_nonpos)
  then show ?case
    using retry_loop_stop [of a c "do" prev "backoff c (a - 1)" "nat a"] 0 ak by simp
next
  case (Suc m)
  then have lt: "a < k" by simp
  with Suc.prems have ra: "retryable (do a)" and lm: "a < maxRetries c" by simp_all
  have sl: "(if a > 0 then backoff c (a - 1) @ [retryDelay c * word_of_int a] else backoff c (a - 1))
          = backoff c ((a + 1) - 1)"
    using Suc.prems(1) by (cases "a > 0") (simp_all add: backoff_snoc backoff_nonpos)
  have n: "nat a + 1 = nat (a + 1)" using Suc.prems(1) by simp
  have "retry_loop c do (a + 1) (Some (do a)) (backoff c ((a + 1) - 1)) (nat (a + 1)) =
           (after_loop c (Some (do k)), backoff c k, nat k + 1)"
    using Suc.hyps(1) [of "a + 1"] Suc.hyps(2) Suc.prems lt by auto
  moreover have "retry_loop c do a prev (backoff c (a - 1)) (nat a) =
      retry_loop c do (a + 1) (Some (do a))
        (if a > 0 then backoff c (a - 1) @ [retryDelay c * word_of_int a] else backoff c (a - 1))
        (nat a + 1)"
    using lm ra by (rule retry_loop_retry)
  ultimately show ?case
    unfolding sl n by simp
qed

lemma stop_index_exists:
  assumes "a \<le> maxRetries c"
  shows "\<exists>k. a \<le> k \<and> k \<le> maxRetries c \<and> (\<forall>j. a \<le> j \<and> j < k \<longrightarrow> retryable (do j)) \<and>
             (\<not> retryable (do k) \<or> k = maxRetries c)"
  using assms
proof (induction "nat (maxRetries c - a)" arbitrary: a)
  case 0
  then have "a = maxRetries c" by simp
  then show ?case by auto
next
  case (Suc m)
  show ?case
  proof (cases "retryable (do a)")
    case False
    with Suc.prems show ?thesis by (intro exI [of _ a]) auto
  next
    case True
    from Suc have "a + 1 \<le> maxRetries c" "m = nat (maxRetries c - (a + 1))" by simp_all
    from Suc.hyps(1) [OF this(2) this(1)] obtain k where
      k: "a + 1 \<le> k" "k \<le> maxRetries c" "\<forall>j. a + 1 \<le> j \<and> j < k \<longrightarrow> retryable (do j)"
         "\<not> retryable (do k) \<or> k = maxRetries c" by blast
    have "\<forall>j. a \<le> j \<and> j < k \<longrightarrow> retryable (do j)"
    proof (intro allI impI)
      fix j assume "a \<le> j \<and> j < k"
      then show "retryable (do j)" using True k(3) by (cases "j = a") auto
    qed
    with k show ?thesis by (intro exI [of _ k]) auto
  qed
qed

lemma doRequestWithRetry_run:
  assumes "0 \<le> k" "k \<le> maxRetries c"
    and "\<forall>j. 0 \<le> j \<and> j < k \<longrightarrow> retryable (do j)"
    and "\<not> retryable (do k) \<or> k = maxRetries c"
  shows "doRequestWithRetry c do = (after_loop c (Some (do k)), backoff c k, nat k + 1)"
  using retry_loop_run [of 0 k c "do" None] assms
  by (simp add: doRequestWithRetry_def backoff_nonpos)

lemma doRequestWithRetry_no_attempt:
  "maxRetries c < 0 \<Longrightarrow> doRequestWithRetry c do = (Inr None, [], 0)"
  by (simp add: doRequestWithRetry_def retry_loop_none after_loop_def)

lemma retryable_NetErr: "retryable (NetErr e)"
  by (simp add: retryable_def)

lemma retryable_5xx: "StatusCode r \<ge> 500 \<Longrightarrow> retryable (Resp r)"
  by (simp add: retryable_def)

lemma after_loop_final: "\<not> retryable out \<Longrightarrow> \<exists>r. out = Resp r \<and> after_loop c (Some out) = Inr (Some r)"
  by (cases out) (simp_all add: retryable_def after_loop_def)

lemma calls_after_retry:
  assumes "0 \<le> k" "k < maxRetries c" "\<forall>j. 0 \<le> j \<and> j < k \<longrightarrow> retryable (do j)" "retryable (do k)"
  shows "nat k + 1 < snd (snd (doRequestWithRetry c do))"
proof -
  from assms(2) have "k + 1 \<le> maxRetries c" by simp
  from stop_index_exists [OF this, of "do"] obtain k' where
    k': "k + 1 \<le> k'" "k' \<le> maxRetries c" "\<forall>j. k + 1 \<le> j \<and> j < k' \<longrightarrow> retryable (do j)"
        "\<not> retryable (do k') \<or> k' = maxRetries c" by blast
  have "\<forall>j. 0 \<le> j \<and> j < k' \<longrightarrow> retryable (do j)"
  proof (intro allI impI)
    fix j assume j: "0 \<le> j \<and> j < k'"
    show "retryable (do j)"
    proof (cases "j < k")
      case True with j assms(3) show ?thesis by simp
    next
      case False
      show ?thesis
      proof (cases "j = k")
        case True with assms(4) show ?thesis by simp
      next
        case False
        with \<open>\<not> j < k\<close> j k'(3) show ?thesis by simp
      qed
    qed
  qed
  with doRequestWithRetry_run [of k' c "do"] k' assms(1)
  have "doRequestWithRetry c do = (after_loop c (Some (do k')), backoff c k', nat k' + 1)" by simp
  with k'(1) assms(1) show ?thesis by simp
qed

lemma GetResource_failure:
  assumes "build_request parses ''GET'' url headers = Inr req"
  shows "(\<forall>e. fst (doRequestWithRetry c (tr req)) = Inl e \<longrightarrow>
            fst (GetResource c parses tr url room headers) = Some (FailedToDownload e)) \<and>
         (\<forall>r. fst (doRequestWithRetry c (tr req)) = Inr (Some r) \<and> StatusCode r \<noteq> 200 \<longrightarrow>
            fst (GetResource c parses tr url room headers) = Some (DownloadStatus (StatusCode r)))"
  using assms by (simp add: GetResource_def)

text \<open>
  C3, as amended. Let the attempts before attempt \<open>k\<close> all be retried. A response with
  status 200, or with a status from 400 to 499, at attempt \<open>k\<close> is returned at once:
  \<open>k + 1\<close> calls of the transport and no more. A transport error, or a response with
  any other status (5xx, and also 1xx, 3xx and the 2xx other than 200), is followed by
  another attempt as long as \<open>k\<close> is below the maximum retry count; at the maximum
  the loop ends, with the last error wrapped in a failure, or with the last response
  returned as it is; \<^verbatim>\<open>GetResource\<close> turns either into a failure of the download.
\<close>

theorem doRequestWithRetry_policy:
  assumes "0 \<le> k" "k \<le> maxRetries c" "\<forall>j. 0 \<le> j \<and> j < k \<longrightarrow> retryable (do j)"
  shows "(\<forall>r. do k = Resp r \<and> (StatusCode r = 200 \<or> 400 \<le> StatusCode r \<and> StatusCode r < 500) \<longrightarrow>
            doRequestWithRetry c do = (Inr (Some r), backoff c k, nat k + 1)) \<and>
         ((\<exists>e. do k = NetErr e) \<or>
          (\<exists>r. do k = Resp r \<and> StatusCode r \<noteq> 200 \<and> (StatusCode r < 400 \<or> 500 \<le> StatusCode r)) \<longrightarrow>
            (k < maxRetries c \<longrightarrow> nat k + 1 < snd (snd (doRequestWithRetry c do))) \<and>
            (k = maxRetries c \<longrightarrow>
               doRequestWithRetry c do =
                 ((case do k of
                     NetErr e \<Rightarrow> Inl (FailedAfterRetries (maxRetries c) (TransportError e))
                   | Resp r \<Rightarrow> Inr (Some r)),
                  backoff c k, nat k + 1))) \<and>
         (build_request parses ''GET'' url headers = Inr req \<and> do = tr req \<longrightarrow>
            (\<forall>e. fst (doRequestWithRetry c do) = Inl e \<longrightarrow>
               fst (GetResource c parses tr url room headers) = Some (FailedToDownload e)) \<and>
            (\<forall>r. fst (doRequestWithRetry c do) = Inr (Some r) \<and> StatusCode r \<noteq> 200 \<longrightarrow>
               fst (GetResource c parses tr url room headers) =
                 Some (DownloadStatus (StatusCode r))))"
proof -
  have a: "\<forall>r. do k = Resp r \<and> (StatusCode r = 200 \<or> 400 \<le> StatusCode r \<and> StatusCode r < 500) \<longrightarrow>
            doRequestWithRetry c do = (Inr (Some r), backoff c k, nat k + 1)"
  proof (intro allI impI)
    fix r assume h: "do k = Resp r \<and> (StatusCode r = 200 \<or> 400 \<le> StatusCode r \<and> StatusCode r < 500)"
    then have "\<not> retryable (do k)" by (auto simp: retryable_def)
    with doRequestWithRetry_run [of k c "do"] assms h
    show "doRequestWithRetry c do = (Inr (Some r), backoff c k, nat k + 1)"
      by (simp add: after_loop_def)
  qed
  have b: "(k < maxRetries c \<longrightarrow> nat k + 1 < snd (snd (doRequestWithRetry c do))) \<and>
            (k = maxRetries c \<longrightarrow>
               doRequestWithRetry c do =
                 ((case do k of
                     NetErr e \<Rightarrow> Inl (FailedAfterRetries (maxRetries c) (TransportError e))
                   | Resp r \<Rightarrow> Inr (Some r)),
                  backoff c k, nat k + 1))"
    if h: "(\<exists>e. do k = NetErr e) \<or>
          (\<exists>r. do k = Resp r \<and> StatusCode r \<noteq> 200 \<and> (StatusCode r < 400 \<or> 500 \<le> StatusCode r))"
  proof (intro conjI impI)
    from h have r: "retryable (do k)" by (auto simp: retryable_def)
    {
      assume "k < maxRetries c"
      with calls_after_retry [of k c "do"] assms r
      show "nat k + 1 < snd (snd (doRequestWithRetry c do))" by simp
    }
    {
      assume "k = maxRetries c"
      with doRequestWithRetry_run [of k c "do"] assms
      have "doRequestWithRetry c do = (after_loop c (Some (do k)), backoff c k, nat k + 1)" by simp
      then show "doRequestWithRetry c do =
                 ((case do k of
                     NetErr e \<Rightarrow> Inl (FailedAfterRetries (maxRetries c) (TransportError e))
                   | Resp r \<Rightarrow> Inr (Some r)),
                  backoff c k, nat k + 1)"
        by (simp add: after_loop_def split: outcome.splits)
    }
  qed
  have g: "(\<forall>e. fst (doRequestWithRetry c do) = Inl e \<longrightarrow>
               fst (GetResource c parses tr url room headers) = Some (FailedToDownload e)) \<and>
            (\<forall>r. fst (doRequestWithRetry c do) = Inr (Some r) \<and> StatusCode r \<noteq> 200 \<longrightarrow>
               fst (GetResource c parses tr url room headers) =
                 Some (DownloadStatus (StatusCode r)))"
    if "build_request parses ''GET'' url headers = Inr req \<and> do = tr req"
    using that GetResource_failure [of parses url headers req c tr room] by simp
  from a b g show ?thesis by blast
qed

lemma sint_mult_of_nat:
  fixes d :: Duration
  assumes "- (2 ^ 63) \<le> sint d * int i" "sint d * int i < 2 ^ 63"
  shows "sint (d * word_of_nat i) = sint d * int i"
proof -
  have d: "signed_take_bit 63 (sint d) = sint d"
    using sint_ge [of d] sint_lt [of d] by (simp add: signed_take_bit_int_eq_self)
  have "sint (d * word_of_nat i) = signed_take_bit 63 (sint d * sint (word_of_nat i :: Duration))"
    by (simp add: sint_word_ariths)
  also have "sint (word_of_nat i :: Duration) = signed_take_bit 63 (int i)"
    by (simp add: signed_of_nat)
  also have "signed_take_bit 63 (sint d * signed_take_bit 63 (int i))
               = signed_take_bit 63 (signed_take_bit 63 (sint d) * signed_take_bit 63 (int i))"
    by (simp only: d)
  also have "\<dots> = signed_take_bit 63 (sint d * int i)"
    by (rule signed_take_bit_mult)
  also have "\<dots> = sint d * int i"
    using assms by (simp add: signed_take_bit_int_eq_self)
  finally show ?thesis .
qed

text \<open>
  C6. There is one wait before each attempt after the first, and the wait before attempt
  number \<open>i\<close> is the configured delay times \<open>i\<close>, as a product of 64-bit durations: it
  is the exact product whenever that fits a duration. With a maximum of 3 retries and
  the answers 503, 503 and 200, the request succeeds at the third attempt after the waits
  delay times 1 and delay times 2.
\<close>

theorem retry_waits_linear:
  "length (fst (snd (doRequestWithRetry c do))) = snd (snd (doRequestWithRetry c do)) - 1 \<and>
   (\<forall>i. 1 \<le> i \<and> i < snd (snd (doRequestWithRetry c do)) \<longrightarrow>
        fst (snd (doRequestWithRetry c do)) ! (i - 1) = retryDelay c * word_of_nat i \<and>
        (- (2 ^ 63) \<le> sint (retryDelay c) * int i \<and> sint (retryDelay c) * int i < 2 ^ 63 \<longrightarrow>
           sint (fst (snd (doRequestWithRetry c do)) ! (i - 1)) = sint (retryDelay c) * int i)) \<and>
   (maxRetries c = 3 \<and> (\<exists>r. do 0 = Resp r \<and> StatusCode r = 503) \<and>
    (\<exists>r. do 1 = Resp r \<and> StatusCode r = 503) \<and> do 2 = Resp ok \<and> StatusCode ok = 200 \<longrightarrow>
        doRequestWithRetry c do = (Inr (Some ok), [retryDelay c * 1, retryDelay c * 2], 3))"
proof (intro conjI allI impI)
  show "length (fst (snd (doRequestWithRetry c do))) = snd (snd (doRequestWithRetry c do)) - 1"
  proof (cases "maxRetries c < 0")
    case True
    then show ?thesis by (simp add: doRequestWithRetry_no_attempt)
  next
    case False
    then have "0 \<le> maxRetries c" by simp
    from stop_index_exists [OF this, of "do"] obtain k where
      "0 \<le> k" "k \<le> maxRetries c" "\<forall>j. 0 \<le> j \<and> j < k \<longrightarrow> retryable (do j)"
      "\<not> retryable (do k) \<or> k = maxRetries c" by blast
    from doRequestWithRetry_run [OF this] show ?thesis by (simp add: length_backoff)
  qed
next
  fix i assume i: "1 \<le> i \<and> i < snd (snd (doRequestWithRetry c do))"
  have nth: "fst (snd (doRequestWithRetry c do)) ! (i - 1) = retryDelay c * word_of_nat i"
  proof (cases "maxRetries c < 0")
    case True
    with i show ?thesis by (simp add: doRequestWithRetry_no_attempt)
  next
    case False
    then have "0 \<le> maxRetries c" by simp
    from stop_index_exists [OF this, of "do"] obtain k where
      k: "0 \<le> k" "k \<le> maxRetries c" "\<forall>j. 0 \<le> j \<and> j < k \<longrightarrow> retryable (do j)"
      "\<not> retryable (do k) \<or> k = maxRetries c" by blast
    from doRequestWithRetry_run [OF this]
    have run: "doRequestWithRetry c do = (after_loop c (Some (do k)), backoff c k, nat k + 1)" .
    with i have "i - 1 < nat k" by auto
    from nth_backoff [OF this, of c] i run show ?thesis by auto
  qed
  show "fst (snd (doRequestWithRetry c do)) ! (i - 1) = retryDelay c * word_of_nat i" by (rule nth)
  {
    assume "- (2 ^ 63) \<le> sint (retryDelay c) * int i \<and> sint (retryDelay c) * int i < 2 ^ 63"
    then show "sint (fst (snd (doRequestWithRetry c do)) ! (i - 1)) = sint (retryDelay c) * int i"
      unfolding nth by (simp add: sint_mult_of_nat)
  }
next
  assume h: "maxRetries c = 3 \<and> (\<exists>r. do 0 = Resp r \<and> StatusCode r = 503) \<and>
    (\<exists>r. do 1 = Resp r \<and> StatusCode r = 503) \<and> do 2 = Resp ok \<and> StatusCode ok = 200"
  have pre: "\<forall>j. 0 \<le> j \<and> j < 2 \<longrightarrow> retryable (do j)"
  proof (intro allI impI)
    fix j :: int assume "0 \<le> j \<and> j < 2"
    then have "j = 0 \<or> j = 1" by auto
    with h show "retryable (do j)" by (auto simp: retryable_def)
  qed
  have stop: "\<not> retryable (do 2) \<or> 2 = maxRetries c" using h by (simp add: retryable_def)
  have "[1..2::int] = [1, 2]" by (simp add: upto_rec1)
  then have "backoff c 2 = [retryDelay c * 1, retryDelay c * 2]" by (simp add: backoff_def)
  with doRequestWithRetry_run [of 2 c "do", OF _ _ pre stop] h
  show "doRequestWithRetry c do = (Inr (Some ok), [retryDelay c * 1, retryDelay c * 2], 3)"
    by (simp add: after_loop_def)
qed

theorem doRequestWithRetry_policy_witness:
  "doRequestWithRetry NewHTTPClient
     (\<lambda>n. Resp \<lparr>StatusCode = (if n = 0 then 503 else 200), RespHeader = [], Body = ''ok'',
                  BodyErrAfter = None\<rparr>) =
     (Inr (Some \<lparr>StatusCode = 200, RespHeader = [], Body = ''ok'', BodyErrAfter = None\<rparr>),
      backoff NewHTTPClient 1, 2)"
proof -
  let ?do = "\<lambda>n::int. Resp \<lparr>StatusCode = (if n = 0 then 503 else 200), RespHeader = [], Body = ''ok'',
                  BodyErrAfter = None\<rparr>"
  have h1: "(0::int) \<le> 1" by simp
  have h2: "1 \<le> maxRetries NewHTTPClient" by (simp add: NewHTTPClient_def)
  have h3: "\<forall>j. 0 \<le> j \<and> j < 1 \<longrightarrow> retryable (?do j)" by (auto simp: retryable_def)
  from doRequestWithRetry_policy [of 1 NewHTTPClient ?do, OF h1 h2 h3]
  show ?thesis by simp
qed

text \<open>
  C3, as stated, fails on the 2xx statuses other than 200: a transport that answers 204
  to every attempt is called four times under the default configuration, and the
  download then fails with that status.
\<close>

theorem doRequestWithRetry_204_retried:
  "snd (snd (doRequestWithRetry NewHTTPClient
     (\<lambda>n. Resp \<lparr>StatusCode = 204, RespHeader = [], Body = [], BodyErrAfter = None\<rparr>))) = 4 \<and>
   fst (GetResource NewHTTPClient (\<lambda>u. True)
     (\<lambda>req n. Resp \<lparr>StatusCode = 204, RespHeader = [], Body = [], BodyErrAfter = None\<rparr>)
     ''http://h/f'' None None) = Some (DownloadStatus 204)"
  by (simp add: doRequestWithRetry_def retry_loop.simps NewHTTPClient_def after_loop_def
        GetResource_def build_request_def set_headers_def header_Set_def header_Get_def Let_def)

theorem retry_waits_linear_witness:
  "doRequestWithRetry NewHTTPClient
     (\<lambda>n. Resp \<lparr>StatusCode = (if n < 2 then 503 else 200), RespHeader = [], Body = ''ok'',
                  BodyErrAfter = None\<rparr>) =
     (Inr (Some \<lparr>StatusCode = 200, RespHeader = [], Body = ''ok'', BodyErrAfter = None\<rparr>),
      [1000000000, 2000000000], 3) \<and>
   sint ([1000000000, 2000000000 :: Duration] ! 1) = 1000000000 * 2"
proof -
  let ?do = "\<lambda>n::int. Resp \<lparr>StatusCode = (if n < 2 then 503 else 200), RespHeader = [], Body = ''ok'',
                  BodyErrAfter = None\<rparr>"
  let ?ok = "\<lparr>StatusCode = 200, RespHeader = [], Body = ''ok'', BodyErrAfter = None\<rparr>"
  note t = retry_waits_linear [of NewHTTPClient ?do ?ok]
  have run: "doRequestWithRetry NewHTTPClient ?do = (Inr (Some ?ok), [1000000000, 2000000000], 3)"
    using t by (simp add: NewHTTPClient_def Second_def)
  have "sint (retryDelay NewHTTPClient) = 1000000000"
    by (simp add: NewHTTPClient_def Second_def)
  with t run have "sint ([1000000000, 2000000000 :: Duration] ! (2 - 1)) = 1000000000 * int 2"
    by (auto dest!: spec [of _ 2])
  with run show ?thesis by simp
qed

text \<open>
  C7, as amended. For a URL that makes a request, the size probe sends a HEAD request to
  that URL. When the transport ends with a 200 response, the probe returns 0 without
  error if the Content-Length header is absent or empty, the declared length if the
  header parses as a signed 64-bit decimal integer, and an error if the header is
  present and does not parse.
\<close>

theorem GetSize_content_length:
  assumes "build_request parses ''HEAD'' url headers = Inr req"
    and "fst (doRequestWithRetry c (do req)) = Inr (Some resp)"
    and "StatusCode resp = 200"
  shows "Method req = ''HEAD'' \<and> URL req = url \<and>
    (header_Get (RespHeader resp) ''Content-Length'' = [] \<longrightarrow>
       GetSize c parses do url headers = Inr 0) \<and>
    (\<forall>n. header_Get (RespHeader resp) ''Content-Length'' \<noteq> [] \<and>
         ParseInt64 (header_Get (RespHeader resp) ''Content-Length'') = Some n \<longrightarrow>
       GetSize c parses do url headers = Inr n) \<and>
    (header_Get (RespHeader resp) ''Content-Length'' \<noteq> [] \<and>
         ParseInt64 (header_Get (RespHeader resp) ''Content-Length'') = None \<longrightarrow>
       GetSize c parses do url headers = Inl ParseContentLengthFailed)"
proof -
  from assms(1) have "Method req = ''HEAD''" "URL req = url"
    by (auto simp: build_request_def Let_def split: if_splits)
  moreover from assms have "GetSize c parses do url headers =
      (let contentLength = header_Get (RespHeader resp) ''Content-Length''
       in if contentLength = [] then Inr 0
          else (case ParseInt64 contentLength of
                  None \<Rightarrow> Inl ParseContentLengthFailed
                | Some sz \<Rightarrow> Inr sz))"
    by (simp add: GetSize_def)
  ultimately show ?thesis by (simp add: Let_def)
qed

theorem GetSize_content_length_witness:
  "GetSize NewHTTPClient (\<lambda>u. True)
     (\<lambda>req n. Resp \<lparr>StatusCode = 200, RespHeader = [(''Content-Length'', ''1024'')], Body = [],
                      BodyErrAfter = None\<rparr>)
     ''http://h/f'' None = Inr 1024"
proof -
  let ?resp = "\<lparr>StatusCode = 200, RespHeader = [(''Content-Length'', ''1024'')], Body = [],
                      BodyErrAfter = None\<rparr>"
  let ?do = "\<lambda>(req::http_Request) (n::int). Resp ?resp"
  let ?req = "\<lparr>Method = ''HEAD'', URL = ''http://h/f'',
                ReqHeader = [(''User-Agent'', ''CachedPath-Go/1.0'')]\<rparr>"
  have h1: "build_request (\<lambda>u. True) ''HEAD'' ''http://h/f'' None = Inr ?req"
    by (simp add: build_request_def set_headers_def header_Set_def header_Get_def)
  have h2: "fst (doRequestWithRetry NewHTTPClient (?do ?req)) = Inr (Some ?resp)"
    by (simp add: doRequestWithRetry_def retry_loop.simps NewHTTPClient_def)
  have h3: "StatusCode ?resp = 200" by simp
  have p: "ParseInt64 ''1024'' = Some 1024"
    by (simp add: ParseInt64_def digit_of_def)
  from GetSize_content_length [OF h1 h2 h3] p show ?thesis
    by (simp add: header_Get_def)
qed

text \<open>
  C7, as stated, fails on a header that does not parse: the probe returns an error.
\<close>

theorem GetSize_unparseable_is_error:
  "GetSize NewHTTPClient (\<lambda>u. True)
     (\<lambda>req n. Resp \<lparr>StatusCode = 200, RespHeader = [(''Content-Length'', ''abc'')], Body = [],
                      BodyErrAfter = None\<rparr>)
     ''http://h/f'' None = Inl ParseContentLengthFailed"
  by (simp add: GetSize_def build_request_def set_headers_def header_Set_def header_Get_def
        doRequestWithRetry_def retry_loop.simps NewHTTPClient_def ParseInt64_def digit_of_def)

section \<open>Basic authentication adds nothing\<close>

text \<open>
  C10. Whatever the username and the password, \<^verbatim>\<open>WithBasicAuth\<close> changes two fields at
  most: a nil HTTP client becomes the zero client and a nil header map an empty one. The
  result does not depend on the two arguments, the header map has the entries it had (so
  no Authorization entry is added), and a request built from the options afterwards is
  the request built from them before.
\<close>

theorem WithBasicAuth_no_credentials:
  "WithBasicAuth username password opts = WithBasicAuth [] [] opts \<and>
   WithBasicAuth username password opts =
     opts\<lparr>Headers := (case Headers opts of None \<Rightarrow> Some [] | Some m \<Rightarrow> Some m),
          HTTPClient := (case HTTPClient opts of None \<Rightarrow> Some zero_http_Client | Some c \<Rightarrow> Some c)\<rparr> \<and>
   HTTPClient (WithBasicAuth username password opts) \<noteq> None \<and>
   Headers (WithBasicAuth username password opts) \<noteq> None \<and>
   map_get (Headers (WithBasicAuth username password opts)) = map_get (Headers opts) \<and>
   map_get (Headers (WithBasicAuth username password opts)) ''Authorization'' =
     map_get (Headers opts) ''Authorization'' \<and>
   build_request parses method url (Headers (WithBasicAuth username password opts)) =
     build_request parses method url (Headers opts)"
proof -
  have h: "Headers (WithBasicAuth username password opts) =
             (case Headers opts of None \<Rightarrow> Some [] | Some m \<Rightarrow> Some m)"
    by (rule WithBasicAuth_Headers)
  have c: "HTTPClient (WithBasicAuth username password opts) =
             (case HTTPClient opts of None \<Rightarrow> Some zero_http_Client | Some c \<Rightarrow> Some c)"
    by (rule WithBasicAuth_HTTPClient)
  have g: "map_get (Headers (WithBasicAuth username password opts)) = map_get (Headers opts)"
    unfolding h by (rule ext) (simp add: map_get_def split: option.splits)
  have b: "build_request parses method url (Headers (WithBasicAuth username password opts)) =
     build_request parses method url (Headers opts)"
    unfolding h by (simp add: build_request_def set_headers_def split: option.splits)
  have e: "WithBasicAuth username password opts =
     opts\<lparr>Headers := (case Headers opts of None \<Rightarrow> Some [] | Some m \<Rightarrow> Some m),
          HTTPClient := (case HTTPClient opts of None \<Rightarrow> Some zero_http_Client | Some c \<Rightarrow> Some c)\<rparr>"
    by (cases opts) (simp add: WithBasicAuth_def Let_def split: option.splits)
  have i: "WithBasicAuth username password opts = WithBasicAuth [] [] opts"
    by (simp add: WithBasicAuth_def)
  from h c g b e i show ?thesis by (simp split: option.splits)
qed

section \<open>The cache file name\<close>

text \<open>The digest of the standard test message, evaluated from the definitions.\<close>

lemma sha256_hex_abc:
  "sha256_hex ''abc'' = ''ba7816bf8f01cfea414140de5dae2223b00361a396177a9cb410ff61f20015ad''"
  by code_simp

lemma length_sha_round: "length (sha_round st kw) = length st"
  by (induction st kw rule: sha_round.induct) (simp_all add: Let_def)

lemma length_foldl_sha_round: "length (foldl sha_round st kws) = length st"
  by (induction kws arbitrary: st) (simp_all add: length_sha_round)

lemma length_sha_block: "length (sha_block hs block) = length hs"
  by (simp add: sha_block_def length_foldl_sha_round)

lemma length_foldl_sha_block: "length (foldl sha_block hs blocks) = length hs"
  by (induction blocks arbitrary: hs) (simp_all add: length_sha_block)

lemma length_sha256: "length (sha256 msg) = 8"
  by (simp add: sha256_def Let_def length_foldl_sha_block H256_def)

lemma length_hex_word: "length (hex_word w) = 8"
  by (simp add: hex_word_def)

lemma length_concat_hex: "length (concat (map hex_word ws)) = 8 * length ws"
  by (induction ws) (simp_all add: length_hex_word)

lemma length_sha256_hex: "length (sha256_hex msg) = 64"
  by (simp add: sha256_hex_def length_concat_hex length_sha256)

lemma ResourceToFilename_eq:
  "ResourceToFilename parse_path url etag =
     (case parse_path url of
        None \<Rightarrow> Inl NilDereference
      | Some path \<Rightarrow> Inr (sha256_hex (url @ etag) @ Ext path))"
  by (simp add: ResourceToFilename_def Let_def split: option.splits)

text \<open>
  C5, as amended. The cache file name is a function of its two arguments: the hex digest
  of the URL followed by the ETag, then the extension of the URL's path. Two pairs whose
  URLs parse have the same name exactly when these digests are equal and these
  extensions are equal; so two pairs with the same concatenation and the same
  extension have the same name.
\<close>

theorem ResourceToFilename_key:
  "ResourceToFilename parse_path url etag =
     (case parse_path url of
        None \<Rightarrow> Inl NilDereference
      | Some path \<Rightarrow> Inr (sha256_hex (url @ etag) @ Ext path)) \<and>
   (parse_path url1 = Some p1 \<and> parse_path url2 = Some p2 \<longrightarrow>
      (ResourceToFilename parse_path url1 etag1 = ResourceToFilename parse_path url2 etag2 \<longleftrightarrow>
         sha256_hex (url1 @ etag1) = sha256_hex (url2 @ etag2) \<and> Ext p1 = Ext p2)) \<and>
   (parse_path url1 = Some p1 \<and> parse_path url2 = Some p2 \<and>
    url1 @ etag1 = url2 @ etag2 \<and> Ext p1 = Ext p2 \<longrightarrow>
      ResourceToFilename parse_path url1 etag1 = ResourceToFilename parse_path url2 etag2)"
proof (intro conjI impI)
  show "ResourceToFilename parse_path url etag =
     (case parse_path url of
        None \<Rightarrow> Inl NilDereference
      | Some path \<Rightarrow> Inr (sha256_hex (url @ etag) @ Ext path))"
    by (rule ResourceToFilename_eq)
next
  assume h: "parse_path url1 = Some p1 \<and> parse_path url2 = Some p2"
  have "length (sha256_hex (url1 @ etag1)) = length (sha256_hex (url2 @ etag2))"
    by (simp add: length_sha256_hex)
  then have "sha256_hex (url1 @ etag1) @ Ext p1 = sha256_hex (url2 @ etag2) @ Ext p2 \<longleftrightarrow>
      sha256_hex (url1 @ etag1) = sha256_hex (url2 @ etag2) \<and> Ext p1 = Ext p2"
    by simp
  with h show "ResourceToFilename parse_path url1 etag1 = ResourceToFilename parse_path url2 etag2 \<longleftrightarrow>
         sha256_hex (url1 @ etag1) = sha256_hex (url2 @ etag2) \<and> Ext p1 = Ext p2"
    by (simp add: ResourceToFilename_eq)
next
  assume "parse_path url1 = Some p1 \<and> parse_path url2 = Some p2 \<and>
    url1 @ etag1 = url2 @ etag2 \<and> Ext p1 = Ext p2"
  then show "ResourceToFilename parse_path url1 etag1 = ResourceToFilename parse_path url2 etag2"
    by (simp add: ResourceToFilename_eq)
qed

lemma url_Path_a: "url_Path ''http://h/a'' = Some ''/a''"
  by (simp add: url_Path_def getScheme_def is_letter_def is_scheme_char_def is_control_def)

lemma url_Path_ab: "url_Path ''http://h/ab'' = Some ''/ab''"
  by (simp add: url_Path_def getScheme_def is_letter_def is_scheme_char_def is_control_def)

theorem ResourceToFilename_key_witness:
  "ResourceToFilename url_Path ''http://h/a'' ''b'' = Inr (sha256_hex ''http://h/ab'') \<and>
   ResourceToFilename url_Path ''http://h/a'' ''b'' = ResourceToFilename url_Path ''http://h/ab'' []"
  using ResourceToFilename_key [of url_Path "''http://h/a''" "''b''" "''http://h/a''" "''/a''"
      "''http://h/ab''" "''/ab''" "''b''" "[]"]
  by (simp add: url_Path_a url_Path_ab Ext_def ResourceToFilename_eq)

text \<open>
  C5, as stated, fails: changing both the URL and the ETag so that their concatenation
  stays the same gives the same file name.
\<close>

theorem ResourceToFilename_collision:
  "(''http://h/a'', ''b'') \<noteq> (''http://h/ab'', []) \<and>
   ResourceToFilename url_Path ''http://h/a'' ''b'' = ResourceToFilename url_Path ''http://h/ab'' []"
  by (simp add: ResourceToFilename_eq url_Path_a url_Path_ab Ext_def)

section \<open>Download into the cache\<close>

lemma GetResource_complete:
  assumes "GetResource c ps do url room headers = (None, w)"
  shows "\<exists>req resp. build_request ps ''GET'' url headers = Inr req \<and>
           fst (doRequestWithRetry c (do req)) = Inr (Some resp) \<and>
           StatusCode resp = 200 \<and> BodyErrAfter resp = None \<and> w = Body resp"
  using assms
  by (auto simp: GetResource_def io_Copy_def Let_def
           split: sum.splits option.splits if_splits)

lemma downloadFile_states:
  assumes "temp_name e \<noteq> Some destPath" "st \<in> set (snd (downloadFile e c url destPath opts s))"
  shows "st destPath = s destPath \<or>
         (fst (downloadFile e c url destPath opts s) = None \<and>
          fst (GetResource c (url_parses e) (http_do e) url (sink_room e) (Headers opts)) = None \<and>
          st destPath =
            Some (RegularFile (snd (GetResource c (url_parses e) (http_do e) url (sink_room e) (Headers opts)))))"
  using assms
  by (auto simp: downloadFile_def Let_def split: option.splits if_splits)

lemma downloadFile_failure:
  assumes "temp_name e \<noteq> Some destPath" "fst (downloadFile e c url destPath opts s) \<noteq> None"
  shows "last (snd (downloadFile e c url destPath opts s)) destPath = s destPath"
  using assms
  by (auto simp: downloadFile_def Let_def split: option.splits if_splits)

lemma downloadFile_fetch_failure:
  assumes "fst (GetResource c (url_parses e) (http_do e) url (sink_room e) (Headers opts)) \<noteq> None"
  shows "fst (downloadFile e c url destPath opts s) \<noteq> None"
  using assms
  by (auto simp: downloadFile_def Let_def split: option.splits if_splits)

lemma downloadFile_success:
  assumes "fst (downloadFile e c url destPath opts s) = None"
  shows "fst (GetResource c (url_parses e) (http_do e) url (sink_room e) (Headers opts)) = None \<and>
         last (snd (downloadFile e c url destPath opts s)) destPath =
           Some (RegularFile (snd (GetResource c (url_parses e) (http_do e) url (sink_room e) (Headers opts))))"
  using assms
  by (auto simp: downloadFile_def Let_def split: option.splits if_splits)

lemma downloadFile_temp_gone:
  assumes "temp_name e = Some t" "t \<noteq> destPath"
  shows "last (snd (downloadFile e c url destPath opts s)) t = s t"
  using assms
  by (auto simp: downloadFile_def Let_def split: option.splits if_splits)

text \<open>
  C2. Let the temporary file not be the destination itself (\<^verbatim>\<open>os.CreateTemp\<close> names it
  \<^verbatim>\<open>.download-\<close> and a number, where a cache file name starts with a hex digit). In
  every state the file system goes through during \<^verbatim>\<open>downloadFile\<close>, the destination
  holds what it held before the call, or the download has succeeded and the destination
  holds all the bytes the transport delivered: bytes reach the temporary file only. When
  the fetch fails, \<^verbatim>\<open>downloadFile\<close> fails; and when \<^verbatim>\<open>downloadFile\<close> fails, the
  destination is at the end as it was before the call (no file there when there was
  none) and the temporary file is gone. On success the destination holds the complete
  body of a 200 response.
\<close>

theorem downloadFile_atomic:
  assumes "temp_name e \<noteq> Some destPath"
  shows "(\<forall>st \<in> set (snd (downloadFile e c url destPath opts s)).
            st destPath = s destPath \<or>
            (fst (downloadFile e c url destPath opts s) = None \<and>
             fst (GetResource c (url_parses e) (http_do e) url (sink_room e) (Headers opts)) = None \<and>
             st destPath =
               Some (RegularFile (snd (GetResource c (url_parses e) (http_do e) url (sink_room e)
                                  (Headers opts)))))) \<and>
         (fst (GetResource c (url_parses e) (http_do e) url (sink_room e) (Headers opts)) \<noteq> None \<longrightarrow>
            fst (downloadFile e c url destPath opts s) \<noteq> None) \<and>
         (fst (downloadFile e c url destPath opts s) \<noteq> None \<longrightarrow>
            last (snd (downloadFile e c url destPath opts s)) destPath = s destPath \<and>
            (s destPath = None \<longrightarrow>
               last (snd (downloadFile e c url destPath opts s)) destPath = None) \<and>
            (\<forall>t. temp_name e = Some t \<longrightarrow>
               last (snd (downloadFile e c url destPath opts s)) t = s t)) \<and>
         (fst (downloadFile e c url destPath opts s) = None \<longrightarrow>
            (\<exists>req resp. build_request (url_parses e) ''GET'' url (Headers opts) = Inr req \<and>
               fst (doRequestWithRetry c (http_do e req)) = Inr (Some resp) \<and>
               StatusCode resp = 200 \<and> BodyErrAfter resp = None \<and>
               last (snd (downloadFile e c url destPath opts s)) destPath = Some (RegularFile (Body resp))))"
proof (intro conjI ballI impI allI)
  fix st assume "st \<in> set (snd (downloadFile e c url destPath opts s))"
  with assms show "st destPath = s destPath \<or>
            (fst (downloadFile e c url destPath opts s) = None \<and>
             fst (GetResource c (url_parses e) (http_do e) url (sink_room e) (Headers opts)) = None \<and>
             st destPath =
               Some (RegularFile (snd (GetResource c (url_parses e) (http_do e) url (sink_room e)
                                  (Headers opts)))))"
    by (rule downloadFile_states)
next
  assume "fst (GetResource c (url_parses e) (http_do e) url (sink_room e) (Headers opts)) \<noteq> None"
  then show "fst (downloadFile e c url destPath opts s) \<noteq> None"
    by (rule downloadFile_fetch_failure)
next
  assume f: "fst (downloadFile e c url destPath opts s) \<noteq> None"
  with assms show d: "last (snd (downloadFile e c url destPath opts s)) destPath = s destPath"
    by (rule downloadFile_failure)
  {
    assume "s destPath = None"
    with d show "last (snd (downloadFile e c url destPath opts s)) destPath = None" by simp
  }
  {
    fix t assume t: "temp_name e = Some t"
    with assms have "t \<noteq> destPath" by auto
    with t show "last (snd (downloadFile e c url destPath opts s)) t = s t"
      by (rule downloadFile_temp_gone)
  }
next
  assume ok: "fst (downloadFile e c url destPath opts s) = None"
  from downloadFile_success [OF ok]
  have g: "fst (GetResource c (url_parses e) (http_do e) url (sink_room e) (Headers opts)) = None"
    and l: "last (snd (downloadFile e c url destPath opts s)) destPath =
           Some (RegularFile (snd (GetResource c (url_parses e) (http_do e) url (sink_room e) (Headers opts))))"
    by simp_all
  from g have "GetResource c (url_parses e) (http_do e) url (sink_room e) (Headers opts) =
      (None, snd (GetResource c (url_parses e) (http_do e) url (sink_room e) (Headers opts)))"
    by (metis prod.collapse)
  from GetResource_complete [OF this] l
  show "\<exists>req resp. build_request (url_parses e) ''GET'' url (Headers opts) = Inr req \<and>
               fst (doRequestWithRetry c (http_do e req)) = Inr (Some resp) \<and>
               StatusCode resp = 200 \<and> BodyErrAfter resp = None \<and>
               last (snd (downloadFile e c url destPath opts s)) destPath = Some (RegularFile (Body resp))"
    by auto
qed

theorem downloadFile_atomic_witness:
  "fst (downloadFile example_env NewHTTPClient ''http://h/f'' ''/c/0a'' (defaultOptions ''/c'') Map.empty)
     = Some (ErrDownloadFailed (DownloadStatus 503)) \<and>
   last (snd (downloadFile example_env NewHTTPClient ''http://h/f'' ''/c/0a'' (defaultOptions ''/c'')
                Map.empty)) ''/c/0a'' = None"
proof -
  have h: "temp_name example_env \<noteq> Some ''/c/0a''" by (simp add: example_env_def)
  have g: "GetResource NewHTTPClient (url_parses example_env) (http_do example_env) ''http://h/f''
             (sink_room example_env) (Headers (defaultOptions ''/c'')) = (Some (DownloadStatus 503), [])"
    by (simp add: GetResource_def build_request_def set_headers_def header_Set_def header_Get_def
          doRequestWithRetry_def retry_loop.simps NewHTTPClient_def after_loop_def
          example_env_def defaultOptions_def Let_def)
  have z: "GetSize NewHTTPClient (url_parses example_env) (http_do example_env) ''http://h/f''
             (Headers (defaultOptions ''/c'')) = Inl (HeadStatus 503)"
    by (simp add: GetSize_def build_request_def set_headers_def header_Set_def header_Get_def
          doRequestWithRetry_def retry_loop.simps NewHTTPClient_def after_loop_def
          example_env_def defaultOptions_def Let_def)
  have f: "fst (downloadFile example_env NewHTTPClient ''http://h/f'' ''/c/0a'' (defaultOptions ''/c'')
             Map.empty) = Some (ErrDownloadFailed (DownloadStatus 503))"
  proof -
    have t: "temp_name example_env = Some ''/c/.download-1''" by (simp add: example_env_def)
    show ?thesis by (simp add: downloadFile_def g z t Let_def)
  qed
  from downloadFile_atomic [OF h, of NewHTTPClient "''http://h/f''" "defaultOptions ''/c''" Map.empty] f
  show ?thesis by simp
qed

section \<open>Freshness of a cache entry\<close>

lemma cache_body_UpToDate:
  "cache_body e c url cachePath etag opts s = UpToDate \<longleftrightarrow> isFresh e s cachePath etag"
  by (auto simp: cache_body_def isFresh_def FileExists_def LoadMetaFromFile_def ReadFile_def Let_def
           split: sum.splits option.splits node.splits if_splits)

lemma cache_body_stale:
  "\<not> isFresh e s cachePath etag \<Longrightarrow>
     cache_body e c url cachePath etag opts s = Downloaded (downloadFile e c url cachePath opts s)"
  by (auto simp: cache_body_def isFresh_def FileExists_def Let_def
           split: sum.splits option.splits if_splits)

lemma isFresh_lock_file:
  "isFresh e (s(LockFilePath cachePath \<mapsto> RegularFile [])) cachePath etag = isFresh e s cachePath etag"
proof -
  have "LockFilePath cachePath \<noteq> cachePath" by (simp add: LockFilePath_def)
  moreover have "LockFilePath cachePath \<noteq> MetaFilePath cachePath"
    by (simp add: LockFilePath_def MetaFilePath_def)
  ultimately show ?thesis
    by (simp add: isFresh_def LoadMetaFromFile_def ReadFile_def)
qed

text \<open>
  C4. The function run under the lock skips the download exactly when the entry is fresh:
  the cache file exists, the metadata file exists and can be read and decoded, and the
  record's ETag is the probed one. In every other case (no cache file, no metadata file,
  an unreadable one, another ETag) it calls \<^verbatim>\<open>downloadFile\<close>. With the lock around it:
  the download is skipped exactly when the lock is acquired and the entry is fresh.
\<close>

theorem cache_fresh_iff:
  "(cache_body e c url cachePath etag opts s = UpToDate \<longleftrightarrow> isFresh e s cachePath etag) \<and>
   (\<not> isFresh e s cachePath etag \<longrightarrow>
      cache_body e c url cachePath etag opts s =
        Downloaded (downloadFile e c url cachePath opts s)) \<and>
   (WithLock_cache e c url cachePath etag opts s = Inr UpToDate \<longleftrightarrow>
      Lock e = None \<and> isFresh e s cachePath etag) \<and>
   (isFresh e s cachePath etag \<longleftrightarrow>
      FileExists s cachePath \<and> FileExists s (MetaFilePath cachePath) \<and>
      (\<exists>m. LoadMetaFromFile e s (MetaFilePath cachePath) = Inr m \<and> ETag m = etag))"
proof (intro conjI impI)
  show "cache_body e c url cachePath etag opts s = UpToDate \<longleftrightarrow> isFresh e s cachePath etag"
    by (rule cache_body_UpToDate)
next
  assume "\<not> isFresh e s cachePath etag"
  then show "cache_body e c url cachePath etag opts s =
        Downloaded (downloadFile e c url cachePath opts s)"
    by (rule cache_body_stale)
next
  show "WithLock_cache e c url cachePath etag opts s = Inr UpToDate \<longleftrightarrow>
      Lock e = None \<and> isFresh e s cachePath etag"
    by (auto simp: WithLock_cache_def Let_def cache_body_UpToDate isFresh_lock_file
             split: option.splits)
next
  show "isFresh e s cachePath etag \<longleftrightarrow>
      FileExists s cachePath \<and> FileExists s (MetaFilePath cachePath) \<and>
      (\<exists>m. LoadMetaFromFile e s (MetaFilePath cachePath) = Inr m \<and> ETag m = etag)"
    by (auto simp: isFresh_def FileExists_def LoadMetaFromFile_def ReadFile_def
             split: sum.splits option.splits node.splits if_splits)
qed

theorem cache_fresh_iff_witness:
  "cache_body example_env NewHTTPClient ''http://h/f'' ''/c/0a'' ''v1'' (defaultOptions ''/c'')
     example_fs = UpToDate \<and>
   cache_body example_env NewHTTPClient ''http://h/f'' ''/c/0a'' ''v2'' (defaultOptions ''/c'')
     example_fs =
     Downloaded (downloadFile example_env NewHTTPClient ''http://h/f'' ''/c/0a''
                   (defaultOptions ''/c'') example_fs)"
proof -
  have l: "LoadMetaFromFile example_env example_fs (MetaFilePath ''/c/0a'') =
             Inr (NewMeta 0 ''http://h/f'' ''/c/0a'' ''v1'')"
    by (simp add: LoadMetaFromFile_def ReadFile_def MetaFilePath_def example_env_def example_fs_def)
  have f1: "isFresh example_env example_fs ''/c/0a'' ''v1''"
    by (simp add: isFresh_def l) (simp add: example_fs_def NewMeta_def)
  have f2: "\<not> isFresh example_env example_fs ''/c/0a'' ''v2''"
    by (simp add: isFresh_def l) (simp add: NewMeta_def)
  from cache_fresh_iff [of example_env NewHTTPClient "''http://h/f''" "''/c/0a''" "''v1''"
         "defaultOptions ''/c''" example_fs]
       cache_fresh_iff [of example_env NewHTTPClient "''http://h/f''" "''/c/0a''" "''v2''"
         "defaultOptions ''/c''" example_fs]
       f1 f2
  show ?thesis by blast
qed

section \<open>Paths\<close>

subsection \<open>Splitting and joining\<close>

lemma split_path_nonempty: "split_path s \<noteq> []"
  by (induction s) auto

lemma split_path_no_slash: "x \<in> set (split_path s) \<Longrightarrow> CHR ''/'' \<notin> set x"
proof (induction s arbitrary: x)
  case Nil
  then show ?case by simp
next
  case (Cons ch cs)
  show ?case
  proof (cases "ch = CHR ''/''")
    case True
    with Cons show ?thesis by auto
  next
    case False
    obtain y ys where ys: "split_path cs = y # ys"
      using split_path_nonempty [of cs] by (cases "split_path cs") auto
    with Cons.prems False have "x = ch # y \<or> x \<in> set ys" by auto
    then show ?thesis
    proof
      assume "x = ch # y"
      moreover have "CHR ''/'' \<notin> set y" using Cons.IH [of y] ys by simp
      ultimately show ?thesis using False by auto
    next
      assume "x \<in> set ys"
      then show ?thesis using Cons.IH [of x] ys by simp
    qed
  qed
qed

lemma split_path_plain: "CHR ''/'' \<notin> set x \<Longrightarrow> split_path x = [x]"
  by (induction x) auto

lemma split_path_append:
  "split_path (a @ CHR ''/'' # b) = split_path a @ split_path b"
proof (induction a)
  case Nil
  then show ?case by simp
next
  case (Cons ch cs)
  obtain y ys where ys: "split_path cs = y # ys"
    using split_path_nonempty [of cs] by (cases "split_path cs") auto
  with Cons show ?case by auto
qed

lemma split_path_join:
  "xs \<noteq> [] \<Longrightarrow> \<forall>x \<in> set xs. CHR ''/'' \<notin> set x \<Longrightarrow> split_path (join_path xs) = xs"
proof (induction xs rule: join_path.induct)
  case 1
  then show ?case by simp
next
  case (2 x)
  then show ?case by (simp add: split_path_plain)
next
  case (3 x y ys)
  then show ?case by (simp add: split_path_append split_path_plain)
qed

lemma join_path_snoc:
  "xs \<noteq> [] \<Longrightarrow> join_path (xs @ [x]) = join_path xs @ CHR ''/'' # x"
  by (induction xs rule: join_path.induct) auto

lemma join_path_Cons:
  "ys \<noteq> [] \<Longrightarrow> join_path (x # ys) = x @ CHR ''/'' # join_path ys"
  by (cases ys) auto

subsection \<open>The elements \<^verbatim>\<open>Clean\<close> keeps\<close>

lemma kept_Nil: "kept rooted []"
  by (simp add: kept_def)

lemma kept_step:
  assumes "kept rooted out" "CHR ''/'' \<notin> set x"
  shows "kept rooted (clean_step rooted out x)"
proof -
  from assms(1) obtain k ns where
    out: "out = ns @ replicate k ''..''" and ns: "''..'' \<notin> set ns" and r: "rooted \<longrightarrow> k = 0"
    and el: "\<forall>x \<in> set out. x \<noteq> [] \<and> x \<noteq> ''.'' \<and> CHR ''/'' \<notin> set x"
    by (auto simp: kept_def)
  consider (skip) "x = [] \<or> x = ''.''" | (up) "x = ''..''" | (name) "x \<noteq> []" "x \<noteq> ''.''" "x \<noteq> ''..''"
    by blast
  then show ?thesis
  proof cases
    case skip
    then show ?thesis using assms(1) by (auto simp: clean_step_def)
  next
    case name
    then have "clean_step rooted out x = (x # ns) @ replicate k ''..''"
      by (simp add: clean_step_def out)
    moreover have "''..'' \<notin> set (x # ns)" using name ns by simp
    ultimately show ?thesis using r el name assms(2) out
      unfolding kept_def by (intro conjI exI [of _ k] exI [of _ "x # ns"]) auto
  next
    case up
    show ?thesis
    proof (cases ns)
      case (Cons n ns')
      then have "clean_step rooted out x = ns' @ replicate k ''..''"
        using up ns by (auto simp: clean_step_def out)
      moreover have "''..'' \<notin> set ns'" using ns Cons by simp
      ultimately show ?thesis using r el out Cons
        unfolding kept_def by (intro conjI exI [of _ k] exI [of _ ns']) auto
    next
      case Nil
      show ?thesis
      proof (cases rooted)
        case True
        with r Nil out up show ?thesis by (simp add: clean_step_def kept_def)
      next
        case False
        have "clean_step rooted out x = [] @ replicate (Suc k) ''..''"
          using False Nil out up by (cases k) (auto simp: clean_step_def)
        then show ?thesis using False el out Nil
          unfolding kept_def by (intro conjI exI [of _ "Suc k"] exI [of _ "[]"]) auto
      qed
    qed
  qed
qed

lemma kept_foldl:
  assumes "kept rooted out" "\<forall>x \<in> set xs. CHR ''/'' \<notin> set x"
  shows "kept rooted (foldl (clean_step rooted) out xs)"
  using assms by (induction xs arbitrary: out) (auto simp: kept_step)

lemma kept_split: "kept rooted (foldl (clean_step rooted) [] (split_path s))"
  by (rule kept_foldl) (auto simp: kept_Nil dest: split_path_no_slash)

subsection \<open>Cleaning keeps the place\<close>

lemma walk_clean_step:
  assumes "kept rooted out" "rooted \<longrightarrow> at = []"
  shows "foldl walk at (rev (clean_step rooted out x)) = walk (foldl walk at (rev out)) x"
proof -
  from assms(1) obtain k ns where
    out: "out = ns @ replicate k ''..''" and ns: "''..'' \<notin> set ns" and r: "rooted \<longrightarrow> k = 0"
    and el: "\<forall>x \<in> set out. x \<noteq> [] \<and> x \<noteq> ''.'' \<and> CHR ''/'' \<notin> set x"
    by (auto simp: kept_def)
  consider (skip) "x = [] \<or> x = ''.''" | (up) "x = ''..''" | (name) "x \<noteq> []" "x \<noteq> ''.''" "x \<noteq> ''..''"
    by blast
  then show ?thesis
  proof cases
    case skip
    then show ?thesis by (auto simp: clean_step_def walk_def)
  next
    case name
    then show ?thesis by (simp add: clean_step_def walk_def)
  next
    case up
    show ?thesis
    proof (cases ns)
      case (Cons n ns')
      with ns el out have n: "n \<noteq> ''..''" "n \<noteq> []" "n \<noteq> ''.''" by auto
      have "clean_step rooted out x = tl out" using up Cons n out by (simp add: clean_step_def)
      moreover have "foldl walk at (rev out) = n # foldl walk at (rev (tl out))"
        using Cons out n by (simp add: walk_def)
      ultimately show ?thesis using up by (simp add: walk_def)
    next
      case Nil
      show ?thesis
      proof (cases rooted)
        case True
        with r Nil out up assms(2) show ?thesis by (simp add: clean_step_def walk_def)
      next
        case False
        have "clean_step rooted out x = ''..'' # out"
          using False Nil out up by (cases k) (auto simp: clean_step_def)
        then show ?thesis using up by (simp add: walk_def)
      qed
    qed
  qed
qed

lemma walk_clean_foldl:
  assumes "kept rooted out" "rooted \<longrightarrow> at = []" "\<forall>x \<in> set xs. CHR ''/'' \<notin> set x"
  shows "foldl walk at (rev (foldl (clean_step rooted) out xs)) =
         foldl walk (foldl walk at (rev out)) xs"
  using assms
proof (induction xs arbitrary: out)
  case Nil
  then show ?case by simp
next
  case (Cons x xs)
  have "kept rooted (clean_step rooted out x)" using Cons.prems by (simp add: kept_step)
  from Cons.IH [OF this] Cons.prems
  show ?case by (simp add: walk_clean_step)
qed

lemma walk_clean_elems:
  assumes "rooted \<longrightarrow> at = []"
  shows "foldl walk at (clean_elems rooted (split_path s)) = foldl walk at (split_path s)"
  using walk_clean_foldl [of rooted "[]" at "split_path s"] assms
  by (auto simp: clean_elems_def kept_Nil dest: split_path_no_slash)

lemma kept_plain: "kept rooted out \<Longrightarrow> plain (rev out)"
  by (simp add: kept_def plain_def)

lemma Clean_render:
  "path \<noteq> [] \<Longrightarrow>
     Clean path = render (is_rooted path) (clean_elems (is_rooted path) (split_path path))"
  by (simp add: Clean_def render_def Let_def)

lemma plain_clean_elems: "plain (clean_elems rooted (split_path s))"
  unfolding clean_elems_def by (rule kept_plain) (rule kept_split)

lemma hd_join_path:
  assumes "plain (x # xs)"
  shows "join_path (x # xs) \<noteq> [] \<and> hd (join_path (x # xs)) = hd x \<and> hd x \<noteq> CHR ''/''"
proof -
  from assms have x: "x \<noteq> []" "CHR ''/'' \<notin> set x" by (simp_all add: plain_def)
  then have "hd x \<noteq> CHR ''/''" by (cases x) auto
  moreover have "join_path (x # xs) \<noteq> [] \<and> hd (join_path (x # xs)) = hd x"
    using x by (cases xs) auto
  ultimately show ?thesis by simp
qed

lemma is_rooted_render:
  assumes "plain out"
  shows "is_rooted (render rooted out) = rooted"
proof (cases rooted)
  case True
  then show ?thesis by (simp add: render_def is_rooted_def)
next
  case False
  show ?thesis
  proof (cases out)
    case Nil
    with False show ?thesis by (simp add: render_def is_rooted_def)
  next
    case (Cons x xs)
    with hd_join_path [of x xs] assms False show ?thesis
      by (simp add: render_def is_rooted_def)
  qed
qed

lemma walk_split_render:
  assumes "plain out"
  shows "foldl walk at (split_path (render rooted out)) = foldl walk at out"
proof -
  have sl: "\<forall>x \<in> set out. CHR ''/'' \<notin> set x" using assms by (simp add: plain_def)
  show ?thesis
  proof (cases "out = []")
    case True
    then show ?thesis by (simp add: render_def walk_def)
  next
    case False
    with sl have "split_path (join_path out) = out" by (simp add: split_path_join)
    with False show ?thesis by (simp add: render_def walk_def)
  qed
qed

lemma resolve_render:
  assumes "plain out"
  shows "resolve cwd (render rooted out) = rev (foldl walk (if rooted then [] else rev cwd) out)"
  using assms by (simp add: resolve_def is_rooted_render walk_split_render)

lemma resolve_elems:
  "resolve cwd path =
     rev (foldl walk (if is_rooted path then [] else rev cwd)
            (clean_elems (is_rooted path) (split_path path)))"
  by (simp add: resolve_def walk_clean_elems)

lemma resolve_Clean: "resolve cwd (Clean path) = resolve cwd path"
proof (cases "path = []")
  case True
  then show ?thesis by (simp add: Clean_def resolve_def is_rooted_def walk_def)
next
  case False
  let ?out = "clean_elems (is_rooted path) (split_path path)"
  have "resolve cwd (Clean path) = resolve cwd (render (is_rooted path) ?out)"
    using Clean_render [OF False] by simp
  also have "\<dots> = rev (foldl walk (if is_rooted path then [] else rev cwd) ?out)"
    by (rule resolve_render) (rule plain_clean_elems)
  also have "\<dots> = resolve cwd path"
    by (rule resolve_elems [symmetric])
  finally show ?thesis .
qed

subsection \<open>The prefix test\<close>

lemma prefix_slash:
  assumes "CHR ''/'' \<notin> set a" "CHR ''/'' \<notin> set b" "prefix (a @ CHR ''/'' # x) (b @ CHR ''/'' # y)"
  shows "a = b \<and> prefix x y"
  using assms
proof (induction a arbitrary: b)
  case Nil
  then show ?case by (cases b) auto
next
  case (Cons c a)
  then show ?case by (cases b) auto
qed

lemma no_prefix_slash:
  assumes "CHR ''/'' \<notin> set b"
  shows "\<not> prefix (a @ CHR ''/'' # x) b"
proof
  assume "prefix (a @ CHR ''/'' # x) b"
  then have "set (a @ CHR ''/'' # x) \<subseteq> set b" by (rule set_mono_prefix)
  with assms show False by auto
qed

lemma join_prefix:
  assumes "\<forall>x \<in> set ds. CHR ''/'' \<notin> set x" "\<forall>x \<in> set js. CHR ''/'' \<notin> set x" "ds \<noteq> []"
    and "prefix (join_path ds @ ''/'') (join_path js)"
  shows "\<exists>rs. rs \<noteq> [] \<and> js = ds @ rs"
  using assms
proof (induction ds arbitrary: js rule: join_path.induct)
  case 1
  then show ?case by simp
next
  case (2 d)
  show ?case
  proof (cases js rule: join_path.cases)
    case 1
    with 2 show ?thesis by simp
  next
    case (2 j)
    with "2.prems" no_prefix_slash [of j d "[]"] show ?thesis by simp
  next
    case (3 j j2 js')
    with "2.prems" prefix_slash [of d j "[]" "join_path (j2 # js')"]
    show ?thesis by simp
  qed
next
  case (3 d d2 ds')
  show ?case
  proof (cases js rule: join_path.cases)
    case 1
    with 3 show ?thesis by simp
  next
    case (2 j)
    with "3.prems" no_prefix_slash [of j d "join_path (d2 # ds') @ ''/''"] show ?thesis by simp
  next
    case js: (3 j j2 js')
    with "3.prems" prefix_slash [of d j "join_path (d2 # ds') @ ''/''" "join_path (j2 # js')"]
    have dj: "d = j" and p: "prefix (join_path (d2 # ds') @ ''/'') (join_path (j2 # js'))"
      by simp_all
    from "3.IH" [of "j2 # js'"] p "3.prems" js
    obtain rs where "rs \<noteq> []" "j2 # js' = (d2 # ds') @ rs" by auto
    with dj js show ?thesis by auto
  qed
qed

lemma render_prefix:
  assumes "plain ds" "plain js" "prefix (render rooted ds @ ''/'') (render rooted js)"
  shows "ds \<noteq> [] \<and> (\<exists>rs. rs \<noteq> [] \<and> js = ds @ rs)"
proof -
  have sl: "\<forall>x \<in> set ds. CHR ''/'' \<notin> set x" "\<forall>x \<in> set js. CHR ''/'' \<notin> set x"
    using assms by (simp_all add: plain_def)
  show ?thesis
  proof (cases rooted)
    case True
    with assms(3) have p: "prefix (join_path ds @ ''/'') (join_path js)"
      by (simp add: render_def)
    have "ds \<noteq> []"
    proof
      assume "ds = []"
      with p have p': "prefix ''/'' (join_path js)" by simp
      show False
      proof (cases js)
        case Nil
        with p' show False by simp
      next
        case (Cons j js')
        with hd_join_path [of j js'] assms(2) p' show False
          by (cases "join_path (j # js')") auto
      qed
    qed
    with join_prefix [OF sl this p] show ?thesis by simp
  next
    case False
    show ?thesis
    proof (cases "js = []")
      case True
      with False assms(3) have "prefix (render False ds @ ''/'') ''.''" by (simp add: render_def)
      with no_prefix_slash [of "''.''" "render False ds" "[]"] show ?thesis by simp
    next
      case js: False
      show ?thesis
      proof (cases "ds = []")
        case True
        with False js assms(3) have p: "prefix (''.'' @ CHR ''/'' # []) (join_path js)"
          by (simp add: render_def)
        show ?thesis
        proof (cases js rule: join_path.cases)
          case 1
          with js show ?thesis by simp
        next
          case (2 j)
          with p no_prefix_slash [of j "''.''" "[]"] sl(2) show ?thesis by simp
        next
          case (3 j j2 js')
          with p prefix_slash [of "''.''" j "[]" "join_path (j2 # js')"] sl(2)
          have "j = ''.''" by simp
          with 3 assms(2) show ?thesis by (simp add: plain_def)
        qed
      next
        case ds: False
        with False js assms(3) have "prefix (join_path ds @ ''/'') (join_path js)"
          by (simp add: render_def)
        with join_prefix [OF sl ds] ds show ?thesis by simp
      qed
    qed
  qed
qed

lemma clean_elems_form:
  "\<exists>k ns. clean_elems rooted (split_path s) = replicate k ''..'' @ ns \<and> ''..'' \<notin> set ns"
proof -
  from kept_split [of rooted s] obtain k ns where
    "foldl (clean_step rooted) [] (split_path s) = ns @ replicate k ''..''" "''..'' \<notin> set ns"
    by (auto simp: kept_def)
  then have "clean_elems rooted (split_path s) = replicate k ''..'' @ rev ns \<and> ''..'' \<notin> set (rev ns)"
    by (simp add: clean_elems_def)
  then show ?thesis by blast
qed

lemma after_name_no_dotdot:
  assumes "replicate k ''..'' @ ns = ds @ rs" "''..'' \<notin> set ns" "ds \<noteq> []" "last ds \<noteq> ''..''"
  shows "''..'' \<notin> set rs"
proof -
  have "k < length ds"
  proof (rule ccontr)
    assume "\<not> k < length ds"
    then have le: "length ds \<le> k" by simp
    have "ds = take (length ds) (replicate k ''..'' @ ns)" using assms(1) by simp
    also have "\<dots> = replicate (length ds) ''..''" using le by simp
    finally have "ds = replicate (length ds) ''..''" .
    then have "last ds = ''..''" using assms(3)
      by (metis last_replicate length_0_conv)
    with assms(4) show False by simp
  qed
  have "rs = drop (length ds) (replicate k ''..'' @ ns)" using assms(1) by simp
  also have "\<dots> = drop (length ds - k) ns" using \<open>k < length ds\<close> by simp
  finally have "set rs \<subseteq> set ns" by (simp add: set_drop_subset)
  with assms(2) show ?thesis by auto
qed

lemma walk_names: "names rs \<Longrightarrow> foldl walk at rs = rev rs @ at"
  by (induction rs arbitrary: at) (auto simp: names_def walk_def)

lemma Join2:
  "Join [d, x] = (if d = [] then (if x = [] then [] else Clean x) else Clean (d @ CHR ''/'' # x))"
  by (simp add: Join.simps)

lemma is_rooted_append: "d \<noteq> [] \<Longrightarrow> is_rooted (d @ s) = is_rooted d"
  by (cases d) (simp_all add: is_rooted_def)

lemma Clean_no_dot_slash: "\<not> prefix ''./'' (Clean q)"
proof (cases "q = []")
  case True
  then show ?thesis by (simp add: Clean_def)
next
  case False
  let ?out = "clean_elems (is_rooted q) (split_path q)"
  have pl: "plain ?out" by (rule plain_clean_elems)
  show ?thesis
  proof
    assume p: "prefix ''./'' (Clean q)"
    have "prefix (render (is_rooted q) [] @ ''/'') (render (is_rooted q) ?out) \<Longrightarrow> False"
      using render_prefix [of "[]" ?out "is_rooted q"] pl by (simp add: plain_def)
    moreover have "\<not> is_rooted q"
    proof
      assume "is_rooted q"
      with p False show False by (simp add: Clean_render render_def)
    qed
    ultimately show False using p False by (simp add: Clean_render render_def)
  qed
qed

text \<open>An entry that passes the prefix test lies below the destination.\<close>

lemma accepted_below:
  assumes pass: "HasPrefix (Join [d, x]) (Clean d @ ''/'')" and nd: "\<not> ends_in_dotdot d"
  shows "\<exists>ds rs. ds \<noteq> [] \<and> rs \<noteq> [] \<and> names rs \<and> plain ds \<and>
           Join [d, x] = render (is_rooted d) (ds @ rs) \<and>
           resolve cwd d = rev (foldl walk (if is_rooted d then [] else rev cwd) ds) \<and>
           resolve cwd (Join [d, x]) = resolve cwd d @ rs"
proof (cases "d = []")
  case True
  with pass have "prefix ''./'' (Join [[], x])" by (simp add: HasPrefix_def Clean_def)
  then have "x \<noteq> [] \<and> prefix ''./'' (Clean x)" by (cases "x = []") (auto simp: Join2)
  with Clean_no_dot_slash [of x] show ?thesis by simp
next
  case False
  let ?r = "is_rooted d"
  let ?q = "d @ CHR ''/'' # x"
  let ?ds = "clean_elems ?r (split_path d)"
  let ?js = "clean_elems ?r (split_path ?q)"
  have rq: "is_rooted ?q = ?r" using False by (rule is_rooted_append)
  have J: "Join [d, x] = render ?r ?js" using False rq by (simp add: Join2 Clean_render)
  have D: "Clean d = render ?r ?ds" using False by (rule Clean_render)
  have pds: "plain ?ds" and pjs: "plain ?js" by (rule plain_clean_elems)+
  from pass have "prefix (render ?r ?ds @ ''/'') (render ?r ?js)"
    unfolding HasPrefix_def J D .
  from render_prefix [OF pds pjs this] obtain rs where
    ds: "?ds \<noteq> []" and rs: "rs \<noteq> []" "?js = ?ds @ rs" by blast
  from nd ds have l: "last ?ds \<noteq> ''..''" by (simp add: ends_in_dotdot_def Let_def)
  from clean_elems_form [of ?r ?q] obtain k ns where
    "?js = replicate k ''..'' @ ns" "''..'' \<notin> set ns" by blast
  with rs(2) have "replicate k ''..'' @ ns = ?ds @ rs" by simp
  from after_name_no_dotdot [OF this \<open>''..'' \<notin> set ns\<close> ds l]
  have "''..'' \<notin> set rs" .
  moreover from pjs rs(2) have "plain rs" by (simp add: plain_def)
  ultimately have n: "names rs" by (auto simp: names_def plain_def)
  let ?at = "if ?r then [] else rev cwd"
  have rd: "resolve cwd d = rev (foldl walk ?at ?ds)" by (rule resolve_elems)
  have "resolve cwd (Join [d, x]) = rev (foldl walk ?at ?js)"
    unfolding J by (rule resolve_render) (rule pjs)
  also have "\<dots> = rev (foldl walk (foldl walk ?at ?ds) rs)" by (simp add: rs(2))
  also have "\<dots> = rev (rev rs @ foldl walk ?at ?ds)" by (simp only: walk_names [OF n])
  also have "\<dots> = resolve cwd d @ rs" by (simp add: rd)
  finally have "resolve cwd (Join [d, x]) = resolve cwd d @ rs" .
  with ds rs n pds J rd show ?thesis by (metis (no_types, lifting))
qed

lemma accepted_inside:
  assumes "HasPrefix (Join [d, x]) (Clean d @ ''/'')" "\<not> ends_in_dotdot d"
  shows "inside cwd d (Join [d, x])"
proof -
  from accepted_below [OF assms, of cwd] obtain rs where
    "rs \<noteq> []" "resolve cwd (Join [d, x]) = resolve cwd d @ rs" by blast
  then show ?thesis by (simp add: inside_def strict_prefix_def)
qed

lemma up_to_last_slash:
  "CHR ''/'' \<notin> set x \<Longrightarrow>
     rev (dropWhile (\<lambda>ch. ch \<noteq> CHR ''/'') (rev (pre @ CHR ''/'' # x))) = pre @ ''/''"
proof -
  assume "CHR ''/'' \<notin> set x"
  then have "\<And>ch. ch \<in> set (rev x) \<Longrightarrow> ch \<noteq> CHR ''/''" by auto
  then have "dropWhile (\<lambda>ch. ch \<noteq> CHR ''/'') (rev x @ CHR ''/'' # rev pre) =
      dropWhile (\<lambda>ch. ch \<noteq> CHR ''/'') (CHR ''/'' # rev pre)"
    by (rule dropWhile_append2)
  then show ?thesis by simp
qed

lemma no_slash_at_all:
  "CHR ''/'' \<notin> set x \<Longrightarrow> dropWhile (\<lambda>ch. ch \<noteq> CHR ''/'') (rev x) = []"
  by (auto simp: dropWhile_eq_Nil_conv)

lemma resolve_trailing_slash:
  assumes "pre \<noteq> []"
  shows "resolve cwd (pre @ ''/'') = resolve cwd pre"
proof -
  have "split_path (pre @ CHR ''/'' # []) = split_path pre @ [[]]"
    by (simp add: split_path_append)
  then show ?thesis using assms
    by (simp add: resolve_def is_rooted_append walk_def)
qed

lemma Dir_render:
  assumes "plain js" "CHR ''/'' \<notin> set x" "x \<noteq> []"
  shows "resolve cwd (Dir (render rooted (js @ [x]))) =
           rev (foldl walk (if rooted then [] else rev cwd) js)"
proof (cases "js = []")
  case True
  show ?thesis
  proof (cases rooted)
    case True
    have "render True ([] @ [x]) = [] @ CHR ''/'' # x" by (simp add: render_def)
    then have "Dir (render True ([] @ [x])) = Clean ''/''"
      unfolding Dir_def using up_to_last_slash [OF assms(2), of "[]"] by simp
    then show ?thesis using True \<open>js = []\<close>
      by (simp add: resolve_Clean) (simp add: resolve_def is_rooted_def walk_def)
  next
    case False
    have "render False ([] @ [x]) = x" by (simp add: render_def)
    moreover have "Dir x = Clean []"
      unfolding Dir_def by (simp only: no_slash_at_all [OF assms(2)] rev.simps)
    ultimately have "Dir (render False ([] @ [x])) = Clean []" by simp
    then show ?thesis using False \<open>js = []\<close>
      by (simp add: resolve_Clean) (simp add: resolve_def is_rooted_def walk_def)
  qed
next
  case False
  let ?pre = "render rooted js"
  have pre: "?pre \<noteq> []" using False hd_join_path [of "hd js" "tl js"] assms(1)
    by (cases js) (auto simp: render_def)
  have "render rooted (js @ [x]) = ?pre @ CHR ''/'' # x"
    using False by (simp add: render_def join_path_snoc)
  then have "Dir (render rooted (js @ [x])) = Clean (?pre @ ''/'')"
    unfolding Dir_def using up_to_last_slash [OF assms(2), of ?pre] by simp
  then have "resolve cwd (Dir (render rooted (js @ [x]))) = resolve cwd (?pre @ ''/'')"
    by (simp add: resolve_Clean)
  also have "\<dots> = resolve cwd ?pre" using pre by (rule resolve_trailing_slash)
  also have "\<dots> = rev (foldl walk (if rooted then [] else rev cwd) js)"
    using assms(1) by (rule resolve_render)
  finally show ?thesis .
qed

lemma accepted_Dir_within:
  assumes "HasPrefix (Join [d, x]) (Clean d @ ''/'')" "\<not> ends_in_dotdot d"
  shows "within cwd d (Dir (Join [d, x]))"
proof -
  from accepted_below [OF assms, of cwd] obtain ds rs where
    ds: "ds \<noteq> []" "plain ds" and rs: "rs \<noteq> []" "names rs"
    and J: "Join [d, x] = render (is_rooted d) (ds @ rs)"
    and rd: "resolve cwd d = rev (foldl walk (if is_rooted d then [] else rev cwd) ds)"
    by blast
  let ?at = "if is_rooted d then [] else rev cwd"
  have l: "CHR ''/'' \<notin> set (last rs)" "last rs \<noteq> []" using rs by (auto simp: names_def)
  have nb: "names (butlast rs)" using rs(2) by (auto simp: names_def dest: in_set_butlastD)
  then have pb: "plain (ds @ butlast rs)" using ds(2) by (auto simp: plain_def names_def)
  have "ds @ rs = (ds @ butlast rs) @ [last rs]" using rs(1) by simp
  then have "resolve cwd (Dir (Join [d, x])) = rev (foldl walk ?at (ds @ butlast rs))"
    unfolding J using Dir_render [OF pb l, of cwd "is_rooted d"] by simp
  also have "\<dots> = rev (rev (butlast rs) @ foldl walk ?at ds)"
    by (simp add: walk_names [OF nb])
  also have "\<dots> = resolve cwd d @ butlast rs" by (simp add: rd)
  finally show ?thesis by (simp add: within_def)
qed

lemma inside_within: "inside cwd d p \<Longrightarrow> within cwd d p"
  by (simp add: inside_def within_def strict_prefix_def)

subsection \<open>Joining a directory and a name\<close>

lemma clean_elems_snoc_name:
  assumes "names [x]"
  shows "clean_elems rooted (xs @ [x]) = clean_elems rooted xs @ [x]"
  using assms by (simp add: clean_elems_def clean_step_def names_def)

lemma Join_name:
  assumes "names [x]"
  shows "Join [d, x] = render (is_rooted d) (clean_elems (is_rooted d) (split_path d) @ [x])
         \<or> (d = [] \<and> Join [d, x] = render False [x])"
proof (cases "d = []")
  case True
  from assms have x: "x \<noteq> []" "CHR ''/'' \<notin> set x" by (simp_all add: names_def)
  then have "\<not> is_rooted x" by (cases x) (auto simp: is_rooted_def)
  moreover have "clean_elems False (split_path x) = [x]"
    using assms x by (simp add: split_path_plain clean_elems_def clean_step_def names_def)
  ultimately have "Clean x = render False [x]" using x by (simp add: Clean_render)
  with True x show ?thesis by (simp add: Join2)
next
  case False
  from assms have x: "CHR ''/'' \<notin> set x" by (simp add: names_def)
  have "split_path (d @ CHR ''/'' # x) = split_path d @ [x]"
    using x by (simp add: split_path_append split_path_plain)
  then have "Clean (d @ CHR ''/'' # x) =
      render (is_rooted d) (clean_elems (is_rooted d) (split_path d) @ [x])"
    using False assms by (simp add: Clean_render is_rooted_append clean_elems_snoc_name)
  with False show ?thesis by (simp add: Join2)
qed

lemma resolve_empty: "resolve cwd [] = cwd"
  by (simp add: resolve_def is_rooted_def walk_def)

lemma Join_name_resolve:
  assumes "names [x]"
  shows "resolve cwd (Join [d, x]) = resolve cwd d @ [x] \<and>
         resolve cwd (Dir (Join [d, x])) = resolve cwd d"
proof -
  from assms have x: "x \<noteq> []" "CHR ''/'' \<notin> set x" by (simp_all add: names_def)
  from Join_name [OF assms, of d] show ?thesis
  proof
    let ?ds = "clean_elems (is_rooted d) (split_path d)"
    let ?at = "if is_rooted d then [] else rev cwd"
    assume J: "Join [d, x] = render (is_rooted d) (?ds @ [x])"
    have p: "plain ?ds" by (rule plain_clean_elems)
    then have p2: "plain (?ds @ [x])" using assms by (auto simp: plain_def names_def)
    have "resolve cwd (Join [d, x]) = rev (foldl walk ?at (?ds @ [x]))"
      unfolding J using p2 by (rule resolve_render)
    also have "\<dots> = rev (foldl walk ?at ?ds) @ [x]"
      using assms by (simp add: walk_def names_def)
    also have "rev (foldl walk ?at ?ds) = resolve cwd d" by (rule resolve_elems [symmetric])
    finally have a: "resolve cwd (Join [d, x]) = resolve cwd d @ [x]" .
    have "resolve cwd (Dir (Join [d, x])) = rev (foldl walk ?at ?ds)"
      unfolding J using p x(2) x(1) by (rule Dir_render)
    also have "\<dots> = resolve cwd d" by (rule resolve_elems [symmetric])
    finally show ?thesis using a by simp
  next
    assume h: "d = [] \<and> Join [d, x] = render False [x]"
    then have d: "d = []" and J: "Join [[], x] = render False [x]" by auto
    have p2: "plain [x]" using assms by (auto simp: plain_def names_def)
    have "resolve cwd (render False [x]) = rev (foldl walk (rev cwd) [x])"
      using resolve_render [OF p2, of cwd False] by simp
    also have "\<dots> = cwd @ [x]" using assms by (simp add: walk_def names_def)
    finally have a: "resolve cwd (Join [d, x]) = resolve cwd d @ [x]"
      unfolding d J resolve_empty .
    have "resolve cwd (Dir (render False ([] @ [x]))) = rev (foldl walk (rev cwd) [])"
      using Dir_render [of "[]" x cwd False] x by (simp add: plain_def)
    then have "resolve cwd (Dir (Join [d, x])) = resolve cwd d"
      unfolding d J resolve_empty by simp
    with a show ?thesis by simp
  qed
qed

lemma Base_name:
  assumes "Base p \<noteq> ''.''" "Base p \<noteq> ''..''" "Base p \<noteq> ''/''"
  shows "names [Base p]"
proof -
  let ?q = "rev (dropWhile (\<lambda>ch. ch = CHR ''/'') (rev p))"
  let ?x = "rev (takeWhile (\<lambda>ch. ch \<noteq> CHR ''/'') (rev ?q))"
  from assms(1) have "p \<noteq> []" by (auto simp: Base_def)
  with assms(3) have x: "?x \<noteq> []" "Base p = ?x" by (auto simp: Base_def Let_def)
  have "CHR ''/'' \<notin> set ?x" by (auto dest: set_takeWhileD)
  with x assms show ?thesis by (simp add: names_def)
qed

section \<open>Extraction stays in the destination\<close>

subsection \<open>Extraction of a whole archive\<close>

lemma accepted_confined:
  assumes "HasPrefix (Join [d, x]) (Clean d @ ''/'')" "\<not> ends_in_dotdot d"
  shows "confined cwd d (MkdirAll (Join [d, x]))" "confined cwd d (MkdirAll (Dir (Join [d, x])))"
    "confined cwd d (OpenFile (Join [d, x]))" "confined cwd d (CopyTo (Join [d, x]) b)"
  using accepted_inside [OF assms, of cwd] accepted_Dir_within [OF assms, of cwd]
  by (simp_all add: inside_within)

lemma extractZipFile_confined:
  assumes "\<not> ends_in_dotdot d" "\<forall>op \<in> set log. confined cwd d op"
  shows "\<forall>op \<in> set (snd (extractZipFile fails f d log)). confined cwd d op"
proof (cases "HasPrefix (Join [d, Name f]) (Clean d @ ''/'')")
  case False
  with assms(2) show ?thesis by (simp add: extractZipFile_def Let_def)
next
  case True
  note c = accepted_confined [OF True assms(1), of cwd]
  from True assms(2) c show ?thesis
    by (auto simp: extractZipFile_def Let_def)
qed

lemma extractZipFile_rejects:
  assumes "\<not> ends_in_dotdot d" "\<not> inside cwd d (Join [d, Name f])"
  shows "extractZipFile fails f d log = (Some (InvalidFilePath (Join [d, Name f])), log)"
proof -
  from assms accepted_inside [of d "Name f" cwd]
  have "\<not> HasPrefix (Join [d, Name f]) (Clean d @ ''/'')" by blast
  then show ?thesis by (simp add: extractZipFile_def Let_def)
qed

lemma extractZip_files_confined:
  assumes "\<not> ends_in_dotdot d" "\<forall>op \<in> set log. confined cwd d op"
  shows "\<forall>op \<in> set (snd (extractZip_files fails fs d log)). confined cwd d op"
  using assms(2)
proof (induction fs arbitrary: log)
  case Nil
  then show ?case by simp
next
  case (Cons f fs)
  obtain r log' where r: "extractZipFile fails f d log = (r, log')"
    by (cases "extractZipFile fails f d log")
  with extractZipFile_confined [OF assms(1) Cons.prems, of fails f]
  have c: "\<forall>op \<in> set log'. confined cwd d op" by simp
  show ?case
  proof (cases r)
    case None
    with r Cons.IH [OF c] show ?thesis by simp
  next
    case (Some e)
    with r c show ?thesis by simp
  qed
qed

lemma extractZip_files_rejects:
  assumes "\<not> ends_in_dotdot d" "\<exists>f \<in> set fs. \<not> inside cwd d (Join [d, Name f])"
  shows "fst (extractZip_files fails fs d log) \<noteq> None"
  using assms(2)
proof (induction fs arbitrary: log)
  case Nil
  then show ?case by simp
next
  case (Cons f fs)
  obtain r log' where r: "extractZipFile fails f d log = (r, log')"
    by (cases "extractZipFile fails f d log")
  show ?case
  proof (cases r)
    case (Some e)
    with r show ?thesis by simp
  next
    case None
    with r extractZipFile_rejects [OF assms(1), of cwd f fails log]
    have "inside cwd d (Join [d, Name f])" by auto
    with Cons.prems have "\<exists>f \<in> set fs. \<not> inside cwd d (Join [d, Name f])" by auto
    from Cons.IH [OF this] r None show ?thesis by simp
  qed
qed

lemma extractTar_items_confined:
  assumes "\<not> ends_in_dotdot d" "\<forall>op \<in> set log. confined cwd d op"
  shows "\<forall>op \<in> set (snd (extractTar_items fails items d log)). confined cwd d op"
  using assms(2)
proof (induction items arbitrary: log)
  case Nil
  then show ?case by simp
next
  case (Cons item items)
  show ?case
  proof (cases item)
    case Corrupt
    with Cons.prems show ?thesis by simp
  next
    case (Entry header body)
    let ?t = "Join [d, TarName header]"
    show ?thesis
    proof (cases "HasPrefix ?t (Clean d @ ''/'')")
      case False
      with Entry Cons.prems show ?thesis by (simp add: Let_def)
    next
      case True
      note c = accepted_confined [OF True assms(1), of cwd]
      have l1: "\<forall>op \<in> set (log @ [MkdirAll ?t]). confined cwd d op"
        using Cons.prems c by auto
      have l2: "\<forall>op \<in> set (log @ [MkdirAll (Dir ?t)]). confined cwd d op"
        using Cons.prems c by auto
      have l3: "\<forall>op \<in> set ((log @ [MkdirAll (Dir ?t)]) @ [OpenFile ?t]). confined cwd d op"
        using Cons.prems c by auto
      have l4: "\<forall>op \<in> set (((log @ [MkdirAll (Dir ?t)]) @ [OpenFile ?t]) @ [CopyTo ?t body]).
                  confined cwd d op"
        using Cons.prems c by auto
      show ?thesis
        using Entry True Cons.IH [OF l1] Cons.IH [OF l4] Cons.IH [OF Cons.prems] l1 l2 l3 l4
        by (simp add: Let_def)
    qed
  qed
qed

lemma extractTar_items_rejects:
  assumes "\<not> ends_in_dotdot d"
    and "\<exists>h b. Entry h b \<in> set items \<and> \<not> inside cwd d (Join [d, TarName h])"
  shows "fst (extractTar_items fails items d log) \<noteq> None"
  using assms(2)
proof (induction items arbitrary: log)
  case Nil
  then show ?case by simp
next
  case (Cons item items)
  show ?case
  proof (cases item)
    case Corrupt
    then show ?thesis by simp
  next
    case (Entry header body)
    let ?t = "Join [d, TarName header]"
    show ?thesis
    proof (cases "HasPrefix ?t (Clean d @ ''/'')")
      case False
      with Entry show ?thesis by (simp add: Let_def)
    next
      case True
      from accepted_inside [OF True assms(1), of cwd] Cons.prems Entry
      have "\<exists>h b. Entry h b \<in> set items \<and> \<not> inside cwd d (Join [d, TarName h])" by auto
      note ih = Cons.IH [OF this]
      show ?thesis using Entry True ih by (simp add: Let_def)
    qed
  qed
qed

lemma Join_absolute_name:
  assumes "d \<noteq> []"
  shows "Join [d, CHR ''/'' # x] = Join [d, x]"
proof -
  have "split_path (d @ CHR ''/'' # CHR ''/'' # x) = split_path d @ [] # split_path x"
    by (simp add: split_path_append)
  moreover have "split_path (d @ CHR ''/'' # x) = split_path d @ split_path x"
    by (simp add: split_path_append)
  ultimately have "clean_elems r (split_path (d @ CHR ''/'' # CHR ''/'' # x)) =
      clean_elems r (split_path (d @ CHR ''/'' # x))" for r
    by (simp add: clean_elems_def clean_step_def)
  then show ?thesis using assms
    by (simp add: Join2 Clean_def is_rooted_append Let_def)
qed

text \<open>
  C1, as amended. Let the destination directory, once cleaned, not end in \<open>..\<close>. Then
  every call that the extraction of a ZIP or of a tar+gzip archive makes on the file
  system is confined to the destination: the files it opens and fills are below the
  destination directory and the directories it makes are the destination or below it. An
  entry whose joined path does not lead below the destination is rejected with the error
  invalid file path before any call is made for it, and an archive with such an entry
  makes the extraction fail; this covers the names with \<open>..\<close> elements that leave the
  destination. A name that starts with a separator is not rejected for that: it is joined
  to the destination as the same name without the separator.
\<close>

theorem extraction_confined:
  assumes "\<not> ends_in_dotdot destDir"
  shows "(\<forall>op \<in> set (snd (extractZip fails a destDir [])). confined cwd destDir op) \<and>
         (\<forall>op \<in> set (snd (extractTarGz fails a destDir [])). confined cwd destDir op) \<and>
         (\<forall>f log. \<not> inside cwd destDir (Join [destDir, Name f]) \<longrightarrow>
            extractZipFile fails f destDir log =
              (Some (InvalidFilePath (Join [destDir, Name f])), log)) \<and>
         (\<forall>files. a = Some (ZipArchive files) \<and>
            (\<exists>f \<in> set files. \<not> inside cwd destDir (Join [destDir, Name f])) \<longrightarrow>
            fst (extractZip fails a destDir []) \<noteq> None) \<and>
         (\<forall>items. a = Some (TarGzArchive items) \<and>
            (\<exists>h b. Entry h b \<in> set items \<and> \<not> inside cwd destDir (Join [destDir, TarName h])) \<longrightarrow>
            fst (extractTarGz fails a destDir []) \<noteq> None) \<and>
         (\<forall>x. destDir \<noteq> [] \<longrightarrow> Join [destDir, CHR ''/'' # x] = Join [destDir, x])"
proof (intro conjI allI impI)
  have e: "\<forall>op \<in> set []. confined cwd destDir op" by simp
  show "\<forall>op \<in> set (snd (extractZip fails a destDir [])). confined cwd destDir op"
    using extractZip_files_confined [OF assms e]
    by (simp add: extractZip_def split: option.splits archive.splits)
  show "\<forall>op \<in> set (snd (extractTarGz fails a destDir [])). confined cwd destDir op"
    using extractTar_items_confined [OF assms e]
    by (simp add: extractTarGz_def split: option.splits archive.splits)
next
  fix f :: zip_File and log assume "\<not> inside cwd destDir (Join [destDir, Name f])"
  with assms show "extractZipFile fails f destDir log =
              (Some (InvalidFilePath (Join [destDir, Name f])), log)"
    by (rule extractZipFile_rejects)
next
  fix files assume "a = Some (ZipArchive files) \<and>
            (\<exists>f \<in> set files. \<not> inside cwd destDir (Join [destDir, Name f]))"
  with extractZip_files_rejects [OF assms, of files cwd fails "[]"]
  show "fst (extractZip fails a destDir []) \<noteq> None"
    by (simp add: extractZip_def)
next
  fix items assume "a = Some (TarGzArchive items) \<and>
            (\<exists>h b. Entry h b \<in> set items \<and> \<not> inside cwd destDir (Join [destDir, TarName h]))"
  with extractTar_items_rejects [OF assms, of items cwd fails "[]"]
  show "fst (extractTarGz fails a destDir []) \<noteq> None"
    by (simp add: extractTarGz_def)
next
  fix x assume "destDir \<noteq> []"
  then show "Join [destDir, CHR ''/'' # x] = Join [destDir, x]"
    by (rule Join_absolute_name)
qed

text \<open>The two names of the claim, joined to a destination.\<close>

lemma Join_traversal: "Join [''/tmp/d'', ''../../etc/passwd''] = ''/etc/passwd''"
  by code_simp

lemma Join_absolute: "Join [''/tmp/d'', ''/etc/passwd''] = ''/tmp/d/etc/passwd''"
  by code_simp

text \<open>
  C1, as stated, fails on absolute names: the entry \<^verbatim>\<open>/etc/passwd\<close> is not rejected, it is
  written below the destination.
\<close>

theorem extractZipFile_absolute_name:
  "extractZipFile (\<lambda>log op. False)
     \<lparr>Name = ''/etc/passwd'', IsDir = False, Mode = 420, Content = ''x'', OpenFails = False\<rparr>
     ''/tmp/d'' [] =
   (None, [MkdirAll ''/tmp/d/etc'', OpenFile ''/tmp/d/etc/passwd'',
           CopyTo ''/tmp/d/etc/passwd'' ''x''])"
  by code_simp

text \<open>
  Why the destination must not end in \<open>..\<close>: for the destination \<^verbatim>\<open>..\<close> the prefix that
  the test looks for is \<^verbatim>\<open>../\<close>, which the joined path of the entry \<^verbatim>\<open>../x\<close> has, and the
  entry is written to the parent of the destination.
\<close>

lemma extractZipFile_dotdot_destination:
  "extractZipFile (\<lambda>log op. False)
     \<lparr>Name = ''../x'', IsDir = False, Mode = 420, Content = ''x'', OpenFails = False\<rparr>
     ''..'' [] =
   (None, [MkdirAll ''../..'', OpenFile ''../../x'', CopyTo ''../../x'' ''x'']) \<and>
   \<not> inside [''a'', ''b''] ''..'' ''../../x'' \<and> ends_in_dotdot ''..''"
  by code_simp

theorem extraction_confined_witness:
  "extractZip (\<lambda>log op. False)
     (Some (ZipArchive
        [\<lparr>Name = ''a/b.txt'', IsDir = False, Mode = 420, Content = ''hi'', OpenFails = False\<rparr>,
         \<lparr>Name = ''../../etc/passwd'', IsDir = False, Mode = 420, Content = ''x'',
            OpenFails = False\<rparr>]))
     ''/tmp/d'' [] =
   (Some (InvalidFilePath ''/etc/passwd''),
    [MkdirAll ''/tmp/d/a'', OpenFile ''/tmp/d/a/b.txt'', CopyTo ''/tmp/d/a/b.txt'' ''hi'']) \<and>
   confined [''home''] ''/tmp/d'' (MkdirAll ''/tmp/d/a'') \<and>
   confined [''home''] ''/tmp/d'' (OpenFile ''/tmp/d/a/b.txt'') \<and>
   confined [''home''] ''/tmp/d'' (CopyTo ''/tmp/d/a/b.txt'' ''hi'')"
proof -
  let ?a = "Some (ZipArchive
        [\<lparr>Name = ''a/b.txt'', IsDir = False, Mode = 420, Content = ''hi'', OpenFails = False\<rparr>,
         \<lparr>Name = ''../../etc/passwd'', IsDir = False, Mode = 420, Content = ''x'',
            OpenFails = False\<rparr>])"
  have h: "\<not> ends_in_dotdot ''/tmp/d''" by code_simp
  have run: "extractZip (\<lambda>log op. False) ?a ''/tmp/d'' [] =
     (Some (InvalidFilePath ''/etc/passwd''),
      [MkdirAll ''/tmp/d/a'', OpenFile ''/tmp/d/a/b.txt'', CopyTo ''/tmp/d/a/b.txt'' ''hi''])"
    by code_simp
  from extraction_confined [OF h, of "\<lambda>log op. False" ?a "[''home'']"]
  have "\<forall>op \<in> set (snd (extractZip (\<lambda>log op. False) ?a ''/tmp/d'' [])).
          confined [''home''] ''/tmp/d'' op" by blast
  then have "\<forall>op \<in> set [MkdirAll ''/tmp/d/a'', OpenFile ''/tmp/d/a/b.txt'',
                          CopyTo ''/tmp/d/a/b.txt'' ''hi'']. confined [''home''] ''/tmp/d'' op"
    unfolding run by simp
  with run show ?thesis by simp
qed

section \<open>Extraction of one entry\<close>

lemma extractSpecific_files_log:
  "\<exists>ops. snd (extractSpecific_files fails fs ip d log) = log @ ops \<and>
         (ops = [] \<or> ops = [MkdirAll (Dir (Join [d, Base ip]))] \<or>
          ops = [MkdirAll (Dir (Join [d, Base ip])), OpenFile (Join [d, Base ip])] \<or>
          (\<exists>b. ops = [MkdirAll (Dir (Join [d, Base ip])), OpenFile (Join [d, Base ip]),
                       CopyTo (Join [d, Base ip]) b]))"
proof (induction fs)
  case Nil
  then show ?case by simp
next
  case (Cons f fs)
  show ?case
  proof (cases "Name f = ip")
    case False
    with Cons show ?thesis by simp
  next
    case True
    then show ?thesis by (simp add: Let_def)
  qed
qed

lemma extractSpecific_items_log:
  "\<exists>ops. snd (extractSpecific_items fails items ip d log) = log @ ops \<and>
         (ops = [] \<or> ops = [MkdirAll (Dir (Join [d, Base ip]))] \<or>
          ops = [MkdirAll (Dir (Join [d, Base ip])), OpenFile (Join [d, Base ip])] \<or>
          (\<exists>b. ops = [MkdirAll (Dir (Join [d, Base ip])), OpenFile (Join [d, Base ip]),
                       CopyTo (Join [d, Base ip]) b]))"
proof (induction items)
  case Nil
  then show ?case by simp
next
  case (Cons item items)
  show ?case
  proof (cases item)
    case Corrupt
    then show ?thesis by simp
  next
    case (Entry header body)
    show ?thesis
    proof (cases "TarName header = ip \<and> Typeflag header = TypeReg")
      case False
      then have "extractSpecific_items fails (item # items) ip d log =
          extractSpecific_items fails items ip d log"
        using Entry by auto
      with Cons show ?thesis by simp
    next
      case True
      with Entry show ?thesis by (simp add: Let_def)
    qed
  qed
qed

lemma ops_at_dest:
  assumes "ops = [] \<or> ops = [MkdirAll (Dir p)] \<or> ops = [MkdirAll (Dir p), OpenFile p] \<or>
          (\<exists>b. ops = [MkdirAll (Dir p), OpenFile p, CopyTo p b])"
  shows "\<forall>op \<in> set ops. at_dest p op"
  using assms by (auto simp: at_dest_def)

lemma extractSpecific_files_ops:
  "\<forall>op \<in> set (snd (extractSpecific_files fails fs ip d [])). at_dest (Join [d, Base ip]) op"
proof -
  from extractSpecific_files_log [of fails fs ip d "[]"] obtain ops where
    "snd (extractSpecific_files fails fs ip d []) = ops"
    "ops = [] \<or> ops = [MkdirAll (Dir (Join [d, Base ip]))] \<or>
          ops = [MkdirAll (Dir (Join [d, Base ip])), OpenFile (Join [d, Base ip])] \<or>
          (\<exists>b. ops = [MkdirAll (Dir (Join [d, Base ip])), OpenFile (Join [d, Base ip]),
                       CopyTo (Join [d, Base ip]) b])"
    by auto
  with ops_at_dest [of ops "Join [d, Base ip]"] show ?thesis by simp
qed

lemma extractSpecific_items_ops:
  "\<forall>op \<in> set (snd (extractSpecific_items fails items ip d [])). at_dest (Join [d, Base ip]) op"
proof -
  from extractSpecific_items_log [of fails items ip d "[]"] obtain ops where
    "snd (extractSpecific_items fails items ip d []) = ops"
    "ops = [] \<or> ops = [MkdirAll (Dir (Join [d, Base ip]))] \<or>
          ops = [MkdirAll (Dir (Join [d, Base ip])), OpenFile (Join [d, Base ip])] \<or>
          (\<exists>b. ops = [MkdirAll (Dir (Join [d, Base ip])), OpenFile (Join [d, Base ip]),
                       CopyTo (Join [d, Base ip]) b])"
    by auto
  with ops_at_dest [of ops "Join [d, Base ip]"] show ?thesis by simp
qed

lemma extractSpecific_files_result:
  "fst (extractSpecific_files fails fs ip d log) = Inr p \<Longrightarrow> p = Join [d, Base ip]"
  by (induction fs) (simp_all add: Let_def split: if_splits)

lemma extractSpecific_items_result:
  "fst (extractSpecific_items fails items ip d log) = Inr p \<Longrightarrow> p = Join [d, Base ip]"
proof (induction items)
  case Nil
  then show ?case by simp
next
  case (Cons item items)
  then show ?case by (cases item) (simp_all add: Let_def split: if_splits)
qed

lemma extractSpecificFromZip_elim:
  assumes "\<And>files. a = Some (ZipArchive files) \<Longrightarrow> Q (extractSpecific_files fails files ip d log)"
    and "Q (Inl OpenZipFailed, log)"
  shows "Q (extractSpecificFromZip fails a ip d log)"
proof (cases a)
  case None
  with assms(2) show ?thesis by (simp add: extractSpecificFromZip_def)
next
  case (Some ar)
  with assms show ?thesis by (cases ar) (simp_all add: extractSpecificFromZip_def)
qed

lemma extractSpecificFromTarGz_elim:
  assumes "\<And>items. a = Some (TarGzArchive items) \<Longrightarrow> Q (extractSpecific_items fails items ip d log)"
    and "\<And>e. Q (Inl e, log)"
  shows "Q (extractSpecificFromTarGz fails a ip d log)"
proof (cases a)
  case None
  with assms(2) show ?thesis by (simp add: extractSpecificFromTarGz_def)
next
  case (Some ar)
  with assms show ?thesis by (cases ar) (simp_all add: extractSpecificFromTarGz_def)
qed

text \<open>
  What the extraction of one entry does in general. Whatever the archive and the
  requested name, every file that it opens or fills is the join of the destination
  directory with the base name of the requested name, the only directory it makes is
  the directory of that path, and on success it returns exactly that path. When the
  base name is a name (not \<open>.\<close>, \<open>..\<close> or \<open>/\<close>), that path is an entry of the destination
  directory itself, whatever elements come before the last one. No test is made on the
  path, so nothing is said for the three other base names.
\<close>

lemma extractSpecific_destination:
  "(\<forall>op \<in> set (snd (extractSpecificFromZip fails a internalPath destDir [])).
      op_path op = (if is_write op then Join [destDir, Base internalPath]
                    else Dir (Join [destDir, Base internalPath]))) \<and>
   (\<forall>op \<in> set (snd (extractSpecificFromTarGz fails a internalPath destDir [])).
      op_path op = (if is_write op then Join [destDir, Base internalPath]
                    else Dir (Join [destDir, Base internalPath]))) \<and>
   (\<forall>p. fst (extractSpecificFromZip fails a internalPath destDir []) = Inr p \<longrightarrow>
      p = Join [destDir, Base internalPath]) \<and>
   (\<forall>p. fst (extractSpecificFromTarGz fails a internalPath destDir []) = Inr p \<longrightarrow>
      p = Join [destDir, Base internalPath]) \<and>
   (Base internalPath \<noteq> ''.'' \<and> Base internalPath \<noteq> ''..'' \<and> Base internalPath \<noteq> ''/'' \<longrightarrow>
      directly_inside cwd destDir (Join [destDir, Base internalPath]) \<and>
      resolve cwd (Join [destDir, Base internalPath]) = resolve cwd destDir @ [Base internalPath] \<and>
      resolve cwd (Dir (Join [destDir, Base internalPath])) = resolve cwd destDir)"
proof -
  let ?p = "Join [destDir, Base internalPath]"
  have z1: "\<forall>op \<in> set (snd (extractSpecificFromZip fails a internalPath destDir [])). at_dest ?p op"
    by (rule extractSpecificFromZip_elim) (simp_all add: extractSpecific_files_ops)
  have t1: "\<forall>op \<in> set (snd (extractSpecificFromTarGz fails a internalPath destDir [])). at_dest ?p op"
    by (rule extractSpecificFromTarGz_elim) (simp_all add: extractSpecific_items_ops)
  have z2: "\<forall>p. fst (extractSpecificFromZip fails a internalPath destDir []) = Inr p \<longrightarrow> p = ?p"
    by (rule extractSpecificFromZip_elim) (simp_all add: extractSpecific_files_result)
  have t2: "\<forall>p. fst (extractSpecificFromTarGz fails a internalPath destDir []) = Inr p \<longrightarrow> p = ?p"
    by (rule extractSpecificFromTarGz_elim) (simp_all add: extractSpecific_items_result)
  have n: "directly_inside cwd destDir ?p \<and>
      resolve cwd ?p = resolve cwd destDir @ [Base internalPath] \<and>
      resolve cwd (Dir ?p) = resolve cwd destDir"
    if "Base internalPath \<noteq> ''.'' \<and> Base internalPath \<noteq> ''..'' \<and> Base internalPath \<noteq> ''/''"
  proof -
    from that have "names [Base internalPath]" by (simp add: Base_name)
    from Join_name_resolve [OF this, of cwd destDir] show ?thesis
      by (simp add: directly_inside_def)
  qed
  from z1 t1 have "\<forall>op \<in> set (snd (extractSpecificFromZip fails a internalPath destDir [])).
      op_path op = (if is_write op then ?p else Dir ?p)"
    and "\<forall>op \<in> set (snd (extractSpecificFromTarGz fails a internalPath destDir [])).
      op_path op = (if is_write op then ?p else Dir ?p)"
    by (simp_all add: at_dest_def)
  with z2 t2 n show ?thesis by blast
qed

lemma extractSpecific_destination_example:
  "extractSpecificFromZip (\<lambda>log op. False)
     (Some (ZipArchive
        [\<lparr>Name = ''../../etc/passwd'', IsDir = False, Mode = 420, Content = ''x'',
            OpenFails = False\<rparr>]))
     ''../../etc/passwd'' ''/c/x'' [] =
   (Inr ''/c/x/passwd'',
    [MkdirAll ''/c/x'', OpenFile ''/c/x/passwd'', CopyTo ''/c/x/passwd'' ''x'']) \<and>
   directly_inside [''home''] ''/c/x'' ''/c/x/passwd''"
proof -
  have b: "Base ''../../etc/passwd'' = ''passwd''" by code_simp
  have j: "Join [''/c/x'', ''passwd''] = ''/c/x/passwd''" by code_simp
  have run: "extractSpecificFromZip (\<lambda>log op. False)
     (Some (ZipArchive
        [\<lparr>Name = ''../../etc/passwd'', IsDir = False, Mode = 420, Content = ''x'',
            OpenFails = False\<rparr>]))
     ''../../etc/passwd'' ''/c/x'' [] =
   (Inr ''/c/x/passwd'',
    [MkdirAll ''/c/x'', OpenFile ''/c/x/passwd'', CopyTo ''/c/x/passwd'' ''x''])"
    by code_simp
  from extractSpecific_destination [of "\<lambda>log op. False" None "''../../etc/passwd''" "''/c/x''"
      "[''home'']"]
  have "directly_inside [''home''] ''/c/x'' ''/c/x/passwd''"
    by (simp add: b j)
  with run show ?thesis by simp
qed


end
